theory Spec2Isabelle
  imports Complex_Main
begin

section \<open>Data model\<close>

text \<open>
  The source declares \<^verbatim>\<open>type Player = 'X' | 'O' | null\<close> and
  \<^verbatim>\<open>type Board = Player[]\<close>. A mark is a \<open>player\<close>, a cell is a
  \<open>player option\<close> with \<open>None\<close> for \<^verbatim>\<open>null\<close>, and a board is a list of
  cells of any length, as the array type allows. The human plays \<open>MarkX\<close> (the spec's
  MarkA), the automated player \<open>MarkO\<close> (the spec's MarkB).
\<close>

datatype player = MarkX | MarkO

type_synonym cell = "player option"

type_synonym board = "cell list"

datatype difficulty = Easy | Medium | Hard

text \<open>
  Reading \<^verbatim>\<open>board[i]\<close> beyond the end of a JavaScript array gives
  \<^verbatim>\<open>undefined\<close>, which is neither \<^verbatim>\<open>null\<close> nor a mark. The read
  returns \<open>None\<close> for \<^verbatim>\<open>undefined\<close> and \<open>Some c\<close> for a stored cell \<open>c\<close>.
\<close>

definition rd :: "board \<Rightarrow> nat \<Rightarrow> cell option" where
  "rd b i = (if i < length b then Some (b ! i) else None)"

definition WINNING_COMBINATIONS :: "(nat \<times> nat \<times> nat) list" where
  "WINNING_COMBINATIONS =
     [(0, 1, 2), (3, 4, 5), (6, 7, 8),
      (0, 3, 6), (1, 4, 7), (2, 5, 8),
      (0, 4, 8), (2, 4, 6)]"

section \<open>Outcome evaluation\<close>

text \<open>
  The test of one combination in \<^verbatim>\<open>checkWinner\<close>:
  \<^verbatim>\<open>board[a] && board[a] === board[b] && board[a] === board[c]\<close>.
  Only a mark is truthy. The result is the mark to return, or \<open>None\<close> when the loop
  goes on.
\<close>

fun line_winner :: "board \<Rightarrow> nat \<times> nat \<times> nat \<Rightarrow> player option" where
  "line_winner board (a, b, c) =
     (case rd board a of
        Some (Some p) \<Rightarrow>
          (if rd board a = rd board b \<and> rd board a = rd board c then Some p else None)
      | _ \<Rightarrow> None)"

fun checkWinner_loop :: "board \<Rightarrow> (nat \<times> nat \<times> nat) list \<Rightarrow> player option" where
  "checkWinner_loop board [] = None"
| "checkWinner_loop board (combination # rest) =
     (case line_winner board combination of
        Some p \<Rightarrow> Some p
      | None \<Rightarrow> checkWinner_loop board rest)"

definition checkWinner :: "board \<Rightarrow> player option" where
  "checkWinner board = checkWinner_loop board WINNING_COMBINATIONS"

definition checkDraw :: "board \<Rightarrow> bool" where
  "checkDraw board = (list_all (\<lambda>cell. cell \<noteq> None) board \<and> checkWinner board = None)"

text \<open>
  The spec's \<open>evaluate\<close> is the sequence both callers of the source run after a move
  (\<^verbatim>\<open>handleCellPress\<close> and \<^verbatim>\<open>makeAiMove\<close>): first
  \<^verbatim>\<open>checkWinner\<close>, then \<^verbatim>\<open>checkDraw\<close>, else the game goes on.
\<close>

datatype outcome = InProgress | Win player | Draw

definition evaluate :: "board \<Rightarrow> outcome" where
  "evaluate board =
     (case checkWinner board of
        Some p \<Rightarrow> Win p
      | None \<Rightarrow> if checkDraw board then Draw else InProgress)"

section \<open>Search scores\<close>

text \<open>
  Scores are JavaScript numbers that are either an integer or one of the two
  infinities the search starts from (\<^verbatim>\<open>-Infinity\<close>, \<^verbatim>\<open>Infinity\<close>).
\<close>

datatype score = MInf | Fin int | PInf

instantiation score :: linorder
begin

fun less_eq_score :: "score \<Rightarrow> score \<Rightarrow> bool" where
  "less_eq_score MInf _ = True"
| "less_eq_score _ PInf = True"
| "less_eq_score (Fin a) (Fin b) = (a \<le> b)"
| "less_eq_score _ _ = False"

definition less_score :: "score \<Rightarrow> score \<Rightarrow> bool" where
  "less_score x y = (x \<le> y \<and> \<not> y \<le> (x::score))"

instance
proof
  fix x y z :: score
  show "(x < y) = (x \<le> y \<and> \<not> y \<le> x)" by (simp add: less_score_def)
  show "x \<le> x" by (cases x) simp_all
  show "x \<le> y \<Longrightarrow> y \<le> z \<Longrightarrow> x \<le> z" by (cases x; cases y; cases z) simp_all
  show "x \<le> y \<Longrightarrow> y \<le> x \<Longrightarrow> x = y" by (cases x; cases y) simp_all
  show "x \<le> y \<or> y \<le> x" by (cases x; cases y) auto
qed

end

lemma score_less_simps [simp]:
  "(Fin a < Fin b) = (a < b)" "MInf < Fin a" "Fin a < PInf" "MInf < PInf"
  "\<not> Fin a < MInf" "\<not> PInf < Fin a" "\<not> PInf < MInf" "\<not> x < MInf" "\<not> PInf < x"
  by (auto simp: less_score_def) (cases x; simp)+

lemma score_le_simps [simp]:
  "x \<le> PInf" "MInf \<le> x" "(x \<le> MInf) = (x = MInf)" "(PInf \<le> x) = (x = PInf)"
  by (cases x; simp)+

lemma score_max_min_simps [simp]:
  "max x MInf = x" "max MInf x = x" "min x PInf = x" "min PInf x = x"
  "max (Fin a) (Fin b) = Fin (max a b)" "min (Fin a) (Fin b) = Fin (min a b)"
  by (simp_all add: max_def min_def)

section \<open>Minimax with alpha-beta pruning\<close>

text \<open>
  \<^verbatim>\<open>minimax\<close> works on the caller's array: it writes a mark into an empty cell,
  recurses, and writes \<^verbatim>\<open>null\<close> back. The model passes the board through every
  call and returns it with the score, so that what a call leaves in the array is part
  of its result. The two \<^verbatim>\<open>for\<close> loops are \<open>max_loop\<close> and \<open>min_loop\<close>, with
  the loop index and the loop's variables (\<^verbatim>\<open>bestScore\<close>, and \<^verbatim>\<open>alpha\<close> or
  \<^verbatim>\<open>beta\<close>, which the loop reassigns) as arguments; \<^verbatim>\<open>break\<close> returns at once.
  The guard \<^verbatim>\<open>board[i] === null\<close> is false on a read beyond the end of the array.
\<close>

function minimax :: "board \<Rightarrow> int \<Rightarrow> bool \<Rightarrow> score \<Rightarrow> score \<Rightarrow> score \<times> board"
  and max_loop :: "board \<Rightarrow> int \<Rightarrow> nat \<Rightarrow> score \<Rightarrow> score \<Rightarrow> score \<Rightarrow> score \<times> board"
  and min_loop :: "board \<Rightarrow> int \<Rightarrow> nat \<Rightarrow> score \<Rightarrow> score \<Rightarrow> score \<Rightarrow> score \<times> board"
where
  "minimax board depth isMaximizing alpha beta =
     (let winner = checkWinner board in
      if winner = Some MarkO then (Fin (10 - depth), board)
      else if winner = Some MarkX then (Fin (depth - 10), board)
      else if checkDraw board then (Fin 0, board)
      else if isMaximizing then max_loop board depth 0 MInf alpha beta
      else min_loop board depth 0 PInf alpha beta)"
| "max_loop board depth i bestScore alpha beta =
     (if i < 9 then
        (if rd board i = Some None then
           (case minimax (board[i := Some MarkO]) (depth + 1) False alpha beta of
              (score, board1) \<Rightarrow>
                (let board2 = board1[i := None];
                     bestScore' = max score bestScore;
                     alpha' = max alpha score
                 in if beta \<le> alpha' then (bestScore', board2)
                    else max_loop board2 depth (i + 1) bestScore' alpha' beta))
         else max_loop board depth (i + 1) bestScore alpha beta)
      else (bestScore, board))"
| "min_loop board depth i bestScore alpha beta =
     (if i < 9 then
        (if rd board i = Some None then
           (case minimax (board[i := Some MarkX]) (depth + 1) True alpha beta of
              (score, board1) \<Rightarrow>
                (let board2 = board1[i := None];
                     bestScore' = min score bestScore;
                     beta' = min beta score
                 in if beta' \<le> alpha then (bestScore', board2)
                    else min_loop board2 depth (i + 1) bestScore' alpha beta'))
         else min_loop board depth (i + 1) bestScore alpha beta)
      else (bestScore, board))"
  by pat_completeness auto

text \<open>
  The recursion is nested: the loop goes on with the board that the recursive call
  returns. Termination therefore needs, for every call that terminates, that the call
  returns the board it was given.
\<close>

definition nempty :: "board \<Rightarrow> nat" where
  "nempty b = length (filter (\<lambda>j. rd b j = Some None) [0..<9])"

lemma rd_update: "rd (b[i := c]) j = (if j = i \<and> i < length b then Some c else rd b j)"
  by (simp add: rd_def)

lemma restore_cell: "rd b i = Some None \<Longrightarrow> b[i := None] = b"
  by (simp add: rd_def list_update_same_conv split: if_splits)

lemma nempty_place:
  assumes "i < 9" "rd b i = Some None"
  shows "nempty (b[i := Some p]) < nempty b"
proof -
  let ?A = "{j. j < 9 \<and> rd b j = Some None}"
  have len: "i < length b" using assms(2) by (simp add: rd_def split: if_splits)
  have "{j. j < 9 \<and> rd (b[i := Some p]) j = Some None} = ?A - {i}"
    using len by (auto simp: rd_update)
  moreover have "i \<in> ?A" using assms by simp
  moreover have "finite ?A" by simp
  ultimately have "card {j. j < 9 \<and> rd (b[i := Some p]) j = Some None} < card ?A"
    using card_Diff1_less[of ?A i] by simp
  then show ?thesis
    by (simp add: nempty_def length_filter_conv_card cong: conj_cong)
qed

lemma frame_partial:
  "minimax_max_loop_min_loop_dom (Inl (b, d, m, al, be)) \<Longrightarrow> snd (minimax b d m al be) = b"
  "minimax_max_loop_min_loop_dom (Inr (Inl (b', d', i, bs, al', be'))) \<Longrightarrow>
     snd (max_loop b' d' i bs al' be') = b'"
  "minimax_max_loop_min_loop_dom (Inr (Inr (b'', d'', i', bs', al'', be''))) \<Longrightarrow>
     snd (min_loop b'' d'' i' bs' al'' be'') = b''"
proof (induct rule: minimax_max_loop_min_loop.pinduct)
  case (1 board depth isMaximizing alpha beta)
  then show ?case
    by (simp add: minimax.psimps Let_def)
next
  case (2 board depth i bestScore alpha beta)
  show ?case
  proof (cases "i < 9 \<and> rd board i = Some None")
    case True
    obtain x y where xy: "minimax (board[i := Some MarkO]) (depth + 1) False alpha beta = (x, y)"
      by (cases "minimax (board[i := Some MarkO]) (depth + 1) False alpha beta")
    have y: "y = board[i := Some MarkO]" using 2(2) True xy by simp
    have r: "y[i := None] = board" using True by (simp add: y restore_cell)
    show ?thesis
      using True 2(3)[OF _ _ xy[symmetric] refl refl refl] 2(1)
      by (simp add: max_loop.psimps xy r Let_def)
  next
    case False
    then show ?thesis using 2(1) 2(4)
      by (auto simp add: max_loop.psimps)
  qed
next
  case (3 board depth i bestScore alpha beta)
  show ?case
  proof (cases "i < 9 \<and> rd board i = Some None")
    case True
    obtain x y where xy: "minimax (board[i := Some MarkX]) (depth + 1) True alpha beta = (x, y)"
      by (cases "minimax (board[i := Some MarkX]) (depth + 1) True alpha beta")
    have y: "y = board[i := Some MarkX]" using 3(2) True xy by simp
    have r: "y[i := None] = board" using True by (simp add: y restore_cell)
    show ?thesis
      using True 3(3)[OF _ _ xy[symmetric] refl refl refl] 3(1)
      by (simp add: min_loop.psimps xy r Let_def)
  next
    case False
    then show ?thesis using 3(1) 3(4)
      by (auto simp add: min_loop.psimps)
  qed
qed

termination minimax
proof (relation "measure (\<lambda>x. case x of
          Inl (b, d, m, al, be) \<Rightarrow> nempty b * 11 + 10
        | Inr (Inl (b, d, i, bs, al, be)) \<Rightarrow> nempty b * 11 + (9 - i)
        | Inr (Inr (b, d, i, bs, al, be)) \<Rightarrow> nempty b * 11 + (9 - i))", goal_cases)
  case 1
  show ?case by simp
next
  case (2 board depth isMaximizing alpha beta x)
  show ?case by simp
next
  case (3 board depth isMaximizing alpha beta x)
  show ?case by simp
next
  case (4 board depth i bestScore alpha beta)
  then show ?case using nempty_place[of i board MarkO] by simp
next
  case (5 board depth i bestScore alpha beta x y xa xb xc)
  have "snd (minimax (board[i := Some MarkO]) (depth + 1) False alpha beta) = board[i := Some MarkO]"
    by (rule frame_partial(1)) fact
  then have "y = board[i := Some MarkO]" using 5 by (metis snd_conv)
  then have "xa = board" using 5 by (simp add: restore_cell)
  then show ?case using 5 by simp
next
  case (6 board depth i bestScore alpha beta)
  then show ?case by simp
next
  case (7 board depth i bestScore alpha beta)
  then show ?case using nempty_place[of i board MarkX] by simp
next
  case (8 board depth i bestScore alpha beta x y xa xb xc)
  have "snd (minimax (board[i := Some MarkX]) (depth + 1) True alpha beta) = board[i := Some MarkX]"
    by (rule frame_partial(1)) fact
  then have "y = board[i := Some MarkX]" using 8 by (metis snd_conv)
  then have "xa = board" using 8 by (simp add: restore_cell)
  then show ?case using 8 by simp
next
  case (9 board depth i bestScore alpha beta)
  then show ?case by simp
qed

section \<open>Move selection\<close>

text \<open>
  \<^verbatim>\<open>getBestMove\<close> returns a JavaScript number, or \<^verbatim>\<open>undefined\<close> when it
  reads \<^verbatim>\<open>availableMoves\<close> out of range. Nothing in it throws.
\<close>

datatype jsval = Undefined | Num int

text \<open>
  \<^verbatim>\<open>Math.random()\<close> returns a double that is at least 0 and less than 1. A double
  that is not negative and is less than \<open>2 ^ 53\<close> is a natural number below
  \<open>2 ^ 53\<close> divided by a power of two, the exponent at most 1074. \<open>Double m k\<close> stands
  for \<open>m / 2 ^ k\<close>; \<open>is_double\<close> holds of the pairs that are doubles, and \<open>dval\<close>
  is the number a pair stands for.
\<close>

datatype double = Double (mant: nat) (scale: nat)

definition is_double :: "double \<Rightarrow> bool" where
  "is_double d = (mant d < 2 ^ 53 \<and> scale d \<le> 1074)"

definition dval :: "double \<Rightarrow> real" where
  "dval d = real (mant d) / 2 ^ scale d"

text \<open>
  The doubles that the literals \<^verbatim>\<open>0.7\<close> and \<^verbatim>\<open>0.3\<close> of the source denote:
  \<^verbatim>\<open>0x1.6666666666666p-1\<close> and \<^verbatim>\<open>0x1.3333333333333p-2\<close>.
\<close>

definition lit_0_7 :: double where
  "lit_0_7 = Double 3152519739159347 52"

definition lit_0_3 :: double where
  "lit_0_3 = Double 5404319552844595 54"

text \<open>
  The random source is the sequence of the doubles that the successive calls of
  \<^verbatim>\<open>Math.random()\<close> return; a call takes the first and leaves the rest.
\<close>

type_synonym rng = "nat \<Rightarrow> double"

definition random :: "rng \<Rightarrow> double \<times> rng" where
  "random g = (g 0, \<lambda>n. g (Suc n))"

definition availableMoves :: "board \<Rightarrow> nat list" where
  "availableMoves board =
     map the (filter (\<lambda>val. val \<noteq> None)
       (map (\<lambda>(index, cell). if cell = None then Some index else None) (enumerate 0 board)))"

text \<open>
  \<^verbatim>\<open>Math.floor(r * availableMoves.length)\<close>. The product of the double
  \<open>m / 2 ^ k\<close> and the length \<open>n\<close> is the double nearest to \<open>m * n / 2 ^ k\<close>, with
  ties going to the even significand: \<open>m * n\<close> keeps its 53 leading bits, the \<open>s\<close>
  bits below them are rounded away by \<open>round_half_even\<close>, and nothing is rounded
  when \<open>m * n\<close> has at most 53 bits. \<open>bits\<close> is the number of bits of a natural
  number. The length of an array is below \<open>2 ^ 32\<close> and is a double itself. Where
  bits are dropped the product is at least \<open>2 ^ 53 / 2 ^ 1074\<close>, a normal double, and
  it is far below the largest double, so that the result has 53 bits and is finite.
\<close>

fun bits :: "nat \<Rightarrow> nat" where
  "bits n = (if n = 0 then 0 else Suc (bits (n div 2)))"

definition round_half_even :: "nat \<Rightarrow> nat \<Rightarrow> nat" where
  "round_half_even M s =
     (let q = M div 2 ^ s; rest = M mod 2 ^ s
      in if 2 ^ s < 2 * rest \<or> (2 * rest = 2 ^ s \<and> odd q) then q + 1 else q)"

definition product_floor :: "double \<Rightarrow> nat \<Rightarrow> nat" where
  "product_floor r n =
     (let M = mant r * n; s = bits M - 53
      in (round_half_even M s * 2 ^ s) div 2 ^ scale r)"

text \<open>
  \<^verbatim>\<open>availableMoves[Math.floor(r * availableMoves.length)]\<close>: a read of the array at
  an index that is not negative, \<^verbatim>\<open>undefined\<close> beyond the end.
\<close>

definition pick :: "nat list \<Rightarrow> double \<Rightarrow> jsval" where
  "pick moves r =
     (let k = product_floor r (length moves)
      in if k < length moves then Num (int (moves ! k)) else Undefined)"

text \<open>The top-level loop of \<^verbatim>\<open>getBestMove\<close>, with \<^verbatim>\<open>bestMove\<close> and \<^verbatim>\<open>bestScore\<close>.\<close>

function best_loop :: "board \<Rightarrow> nat \<Rightarrow> int \<Rightarrow> score \<Rightarrow> int \<times> board" where
  "best_loop board i bestMove bestScore =
     (if i < 9 then
        (if rd board i = Some None then
           (case minimax (board[i := Some MarkO]) 0 False MInf PInf of
              (score, board1) \<Rightarrow>
                (let board2 = board1[i := None]
                 in if bestScore < score then best_loop board2 (i + 1) (int i) score
                    else best_loop board2 (i + 1) bestMove bestScore))
         else best_loop board (i + 1) bestMove bestScore)
      else (bestMove, board))"
  by pat_completeness auto

termination
  by (relation "measure (\<lambda>(board, i, bestMove, bestScore). 9 - i)") auto

text \<open>
  The result is the returned value, the board as the call leaves it, and the random
  source as the call leaves it. \<^verbatim>\<open>&&\<close> draws a random number only when the
  difficulty matches.
\<close>

definition getBestMove :: "board \<Rightarrow> difficulty \<Rightarrow> rng \<Rightarrow> jsval \<times> board \<times> rng" where
  "getBestMove board difficulty g =
     (let moves = availableMoves board in
      if difficulty = Easy \<and> dval (fst (random g)) < dval lit_0_7 then
        (let g1 = snd (random g)
         in (pick moves (fst (random g1)), board, snd (random g1)))
      else
        (let g1 = (if difficulty = Easy then snd (random g) else g) in
         if difficulty = Medium \<and> dval (fst (random g1)) < dval lit_0_3 then
           (let g2 = snd (random g1)
            in (pick moves (fst (random g2)), board, snd (random g2)))
         else
           (let g2 = (if difficulty = Medium then snd (random g1) else g1) in
            case best_loop board 0 (- 1) MInf of
              (bestMove, board') \<Rightarrow> (Num bestMove, board', g2))))"

section \<open>Reference definitions\<close>

text \<open>
  The definitions below are not functions of the source. They are what the claims
  are stated and proved with: the score of a search as a function of the board, the
  exhaustive search, the vocabulary of the spec for outcomes and moves, the positions
  the automated player does not lose, the boards of a game, and the concrete boards
  of the examples. From here on the recursive equations are unfolded by hand in the
  proofs, not by the simplifier.
\<close>

declare minimax.simps [simp del] max_loop.simps [simp del] min_loop.simps [simp del]
  best_loop.simps [simp del] bits.simps [simp del]

lemma nempty_place_measure:
  "i < 9 \<Longrightarrow> rd b i = Some None \<Longrightarrow> nempty (b[i := Some p]) * 11 + 10 < nempty b * 11 + 9 - i"
  using nempty_place[of i b p] by simp

subsection \<open>The score of a search\<close>

text \<open>
  \<open>ab\<close> is the score \<open>minimax\<close> returns, as a function of the board alone: the same
  tests and the same loops, without the board in the result. \<open>minimax_ab\<close> below
  proves that \<open>minimax\<close> returns this score and the board it was given.
\<close>

function ab :: "board \<Rightarrow> int \<Rightarrow> bool \<Rightarrow> score \<Rightarrow> score \<Rightarrow> score"
  and ab_max :: "board \<Rightarrow> int \<Rightarrow> nat \<Rightarrow> score \<Rightarrow> score \<Rightarrow> score \<Rightarrow> score"
  and ab_min :: "board \<Rightarrow> int \<Rightarrow> nat \<Rightarrow> score \<Rightarrow> score \<Rightarrow> score \<Rightarrow> score"
where
  "ab board depth isMaximizing alpha beta =
     (if checkWinner board = Some MarkO then Fin (10 - depth)
      else if checkWinner board = Some MarkX then Fin (depth - 10)
      else if checkDraw board then Fin 0
      else if isMaximizing then ab_max board depth 0 MInf alpha beta
      else ab_min board depth 0 PInf alpha beta)"
| "ab_max board depth i bestScore alpha beta =
     (if i < 9 then
        (if rd board i = Some None then
           (let score = ab (board[i := Some MarkO]) (depth + 1) False alpha beta
            in if beta \<le> max alpha score then max score bestScore
               else ab_max board depth (i + 1) (max score bestScore) (max alpha score) beta)
         else ab_max board depth (i + 1) bestScore alpha beta)
      else bestScore)"
| "ab_min board depth i bestScore alpha beta =
     (if i < 9 then
        (if rd board i = Some None then
           (let score = ab (board[i := Some MarkX]) (depth + 1) True alpha beta
            in if min beta score \<le> alpha then min score bestScore
               else ab_min board depth (i + 1) (min score bestScore) alpha (min beta score))
         else ab_min board depth (i + 1) bestScore alpha beta)
      else bestScore)"
  by pat_completeness auto
termination
  by (relation "measure (\<lambda>x. case x of
          Inl (b, d, m, al, be) \<Rightarrow> nempty b * 11 + 10
        | Inr (Inl (b, d, i, bs, al, be)) \<Rightarrow> nempty b * 11 + (9 - i)
        | Inr (Inr (b, d, i, bs, al, be)) \<Rightarrow> nempty b * 11 + (9 - i))")
     (auto simp: nempty_place_measure)

declare ab.simps [simp del] ab_max.simps [simp del] ab_min.simps [simp del]

subsection \<open>Exhaustive minimax\<close>

text \<open>
  The search of \<open>ab\<close> with the two \<^verbatim>\<open>break\<close> statements removed, and so without
  \<open>alpha\<close> and \<open>beta\<close>: every empty cell of every position is tried.
\<close>

function mm :: "board \<Rightarrow> int \<Rightarrow> bool \<Rightarrow> score"
  and mm_max :: "board \<Rightarrow> int \<Rightarrow> nat \<Rightarrow> score \<Rightarrow> score"
  and mm_min :: "board \<Rightarrow> int \<Rightarrow> nat \<Rightarrow> score \<Rightarrow> score"
where
  "mm board depth isMaximizing =
     (if checkWinner board = Some MarkO then Fin (10 - depth)
      else if checkWinner board = Some MarkX then Fin (depth - 10)
      else if checkDraw board then Fin 0
      else if isMaximizing then mm_max board depth 0 MInf
      else mm_min board depth 0 PInf)"
| "mm_max board depth i bestScore =
     (if i < 9 then
        (if rd board i = Some None then
           (let score = mm (board[i := Some MarkO]) (depth + 1) False
            in mm_max board depth (i + 1) (max score bestScore))
         else mm_max board depth (i + 1) bestScore)
      else bestScore)"
| "mm_min board depth i bestScore =
     (if i < 9 then
        (if rd board i = Some None then
           (let score = mm (board[i := Some MarkX]) (depth + 1) True
            in mm_min board depth (i + 1) (min score bestScore))
         else mm_min board depth (i + 1) bestScore)
      else bestScore)"
  by pat_completeness auto
termination
  by (relation "measure (\<lambda>x. case x of
          Inl (b, d, m) \<Rightarrow> nempty b * 11 + 10
        | Inr (Inl (b, d, i, bs)) \<Rightarrow> nempty b * 11 + (9 - i)
        | Inr (Inr (b, d, i, bs)) \<Rightarrow> nempty b * 11 + (9 - i))")
     (auto simp: nempty_place_measure)

declare mm.simps [simp del] mm_max.simps [simp del] mm_min.simps [simp del]

text \<open>
  The top-level loop of \<^verbatim>\<open>getBestMove\<close> over the exhaustive search: \<open>best_loop\<close>
  with \<open>mm\<close> for the score of each candidate cell.
\<close>

function best_full :: "board \<Rightarrow> nat \<Rightarrow> int \<Rightarrow> score \<Rightarrow> int" where
  "best_full board i bestMove bestScore =
     (if i < 9 then
        (if rd board i = Some None then
           (let score = mm (board[i := Some MarkO]) 0 False
            in if bestScore < score then best_full board (i + 1) (int i) score
               else best_full board (i + 1) bestMove bestScore)
         else best_full board (i + 1) bestMove bestScore)
      else bestMove)"
  by pat_completeness auto
termination
  by (relation "measure (\<lambda>(board, i, bestMove, bestScore). 9 - i)") auto

declare best_full.simps [simp del]

subsection \<open>Outcomes and moves in the words of the spec\<close>

text \<open>
  A WinLine is completed by a mark when its three cells all hold that mark.
\<close>

definition completed :: "board \<Rightarrow> nat \<times> nat \<times> nat \<Rightarrow> player \<Rightarrow> bool" where
  "completed board line p =
     (case line of (a, b, c) \<Rightarrow>
        board ! a = Some p \<and> board ! b = Some p \<and> board ! c = Some p)"

definition in_board :: "board \<Rightarrow> nat \<times> nat \<times> nat \<Rightarrow> bool" where
  "in_board board line = (case line of (a, b, c) \<Rightarrow> a < length board \<and> b < length board \<and> c < length board)"

text \<open>
  A returned value is a valid move when it is the index of an empty cell among the
  nine cells.
\<close>

definition valid_move :: "board \<Rightarrow> jsval \<Rightarrow> bool" where
  "valid_move board v = (\<exists>i < 9. v = Num (int i) \<and> rd board i = Some None)"

subsection \<open>Positions the automated player does not lose\<close>

text \<open>
  \<open>safe board isMaximizing\<close>: from this position, with \<open>MarkO\<close> to move when
  \<open>isMaximizing\<close> and \<open>MarkX\<close> to move otherwise, \<open>MarkO\<close> can play so that \<open>MarkX\<close>
  never completes a line, whatever \<open>MarkX\<close> plays. \<open>safe_some\<close> asks for one empty
  cell from index \<open>i\<close> on where \<open>MarkO\<close> can go, \<open>safe_all\<close> asks it of every empty
  cell where \<open>MarkX\<close> can go.
\<close>

function safe :: "board \<Rightarrow> bool \<Rightarrow> bool"
  and safe_some :: "board \<Rightarrow> nat \<Rightarrow> bool"
  and safe_all :: "board \<Rightarrow> nat \<Rightarrow> bool"
where
  "safe board isMaximizing =
     (if checkWinner board = Some MarkO then True
      else if checkWinner board = Some MarkX then False
      else if checkDraw board then True
      else if isMaximizing then safe_some board 0
      else safe_all board 0)"
| "safe_some board i =
     (if i < 9 then
        (if rd board i = Some None then
           (if safe (board[i := Some MarkO]) False then True else safe_some board (i + 1))
         else safe_some board (i + 1))
      else False)"
| "safe_all board i =
     (if i < 9 then
        (if rd board i = Some None then
           (if safe (board[i := Some MarkX]) True then safe_all board (i + 1) else False)
         else safe_all board (i + 1))
      else True)"
  by pat_completeness auto
termination
  by (relation "measure (\<lambda>x. case x of
          Inl (b, m) \<Rightarrow> nempty b * 11 + 10
        | Inr (Inl (b, i)) \<Rightarrow> nempty b * 11 + (9 - i)
        | Inr (Inr (b, i)) \<Rightarrow> nempty b * 11 + (9 - i))")
     (auto simp: nempty_place_measure)

declare safe.simps [simp del] safe_some.simps [simp del] safe_all.simps [simp del]

subsection \<open>The game against the Hard player\<close>

text \<open>
  The boards of a game that starts from the empty board, with \<open>MarkX\<close> moving
  first. \<open>reachable p board\<close>: the board is reached and \<open>p\<close> is the next to move.
  \<open>MarkX\<close> plays any empty cell while the game is in progress, as
  \<^verbatim>\<open>handleCellPress\<close> allows; \<open>MarkO\<close> plays the cell Hard \<open>getBestMove\<close>
  returns, as \<^verbatim>\<open>makeAiMove\<close> does.
\<close>

inductive reachable :: "player \<Rightarrow> board \<Rightarrow> bool" where
  start: "reachable MarkX (replicate 9 None)"
| human: "reachable MarkX board \<Longrightarrow> evaluate board = InProgress \<Longrightarrow>
          i < 9 \<Longrightarrow> board ! i = None \<Longrightarrow>
          reachable MarkO (board[i := Some MarkX])"
| machine: "reachable MarkO board \<Longrightarrow> evaluate board = InProgress \<Longrightarrow>
            fst (getBestMove board Hard g) = Num (int i) \<Longrightarrow>
            reachable MarkX (board[i := Some MarkO])"

subsection \<open>The window of a pruned search\<close>

text \<open>
  What a search with the window \<open>(alpha, beta)\<close> says about the exhaustive value
  \<open>v\<close> when it returns \<open>r\<close>: at or below \<open>alpha\<close> it is an upper bound, at or
  above \<open>beta\<close> a lower bound, and strictly inside the window it is exact. The two
  loops keep the same three facts about the cells still to visit, with the running
  \<open>bestScore\<close>.
\<close>

definition window_ok :: "score \<Rightarrow> score \<Rightarrow> score \<Rightarrow> score \<Rightarrow> bool" where
  "window_ok alpha beta v r =
     ((r \<le> alpha \<longrightarrow> v \<le> r) \<and> (beta \<le> r \<longrightarrow> r \<le> v) \<and> (alpha < r \<and> r < beta \<longrightarrow> r = v))"

definition max_loop_ok :: "score \<Rightarrow> score \<Rightarrow> score \<Rightarrow> score \<Rightarrow> score \<Rightarrow> bool" where
  "max_loop_ok bestScore alpha beta v r =
     ((beta \<le> r \<longrightarrow> r \<le> v) \<and> (r < beta \<longrightarrow> v \<le> r \<and> bestScore \<le> r) \<and>
      (alpha < r \<and> r < beta \<longrightarrow> r = v))"

definition min_loop_ok :: "score \<Rightarrow> score \<Rightarrow> score \<Rightarrow> score \<Rightarrow> score \<Rightarrow> bool" where
  "min_loop_ok bestScore alpha beta v r =
     ((r \<le> alpha \<longrightarrow> v \<le> r) \<and> (alpha < r \<longrightarrow> r \<le> v \<and> r \<le> bestScore) \<and>
      (alpha < r \<and> r < beta \<longrightarrow> r = v))"

subsection \<open>Concrete inputs\<close>

text \<open>A random source whose every draw is one half.\<close>

definition rng_half :: rng where
  "rng_half = (\<lambda>n. Double 1 1)"

text \<open>A random source whose every draw is zero.\<close>

definition rng_zero :: rng where
  "rng_zero = (\<lambda>n. Double 0 0)"

text \<open>
  A random source whose first draw is zero and whose later draws are the double
  nearest to one third, \<^verbatim>\<open>0x1.5555555555555p-2\<close>. Three times this double is
  \<open>1 - 2 ^ -54\<close>, which is halfway between two doubles and rounds to 1. The board
  \<open>rounding_board\<close> has the three empty cells 6, 7 and 8.
\<close>

definition rng_third :: rng where
  "rng_third = (\<lambda>n. if n = 0 then Double 0 0 else Double 6004799503160661 54)"

definition rounding_board :: board where
  "rounding_board =
     [Some MarkX, Some MarkO, Some MarkX, Some MarkX, Some MarkO, Some MarkO,
      None, None, None]"

text \<open>
  The board of the spec's example, rows \<^verbatim>\<open>X X _\<close>, \<^verbatim>\<open>O O _\<close>, \<^verbatim>\<open>_ _ _\<close>; and a
  full board without a winner, rows \<^verbatim>\<open>X O X\<close>, \<^verbatim>\<open>X O O\<close>, \<^verbatim>\<open>O X X\<close>.
\<close>

definition example_board :: board where
  "example_board =
     [Some MarkX, Some MarkX, None, Some MarkO, Some MarkO, None, None, None, None]"

definition drawn_board :: board where
  "drawn_board =
     [Some MarkX, Some MarkO, Some MarkX, Some MarkX, Some MarkO, Some MarkO,
      Some MarkO, Some MarkX, Some MarkX]"

text \<open>The full board above with its last cell emptied: one empty cell, no winner.\<close>

definition last_cell_board :: board where
  "last_cell_board = drawn_board[8 := None]"

text \<open>
  A game: \<open>MarkX\<close> plays 0, 1 and 3; Hard \<open>getBestMove\<close> answers 4, 2 and 6 and
  completes the line 2, 4, 6.
\<close>

definition game_1 :: board where
  "game_1 = [Some MarkX, None, None, None, None, None, None, None, None]"

definition game_2 :: board where
  "game_2 = [Some MarkX, None, None, None, Some MarkO, None, None, None, None]"

definition game_3 :: board where
  "game_3 = [Some MarkX, Some MarkX, None, None, Some MarkO, None, None, None, None]"

definition game_4 :: board where
  "game_4 = [Some MarkX, Some MarkX, Some MarkO, None, Some MarkO, None, None, None, None]"

definition game_5 :: board where
  "game_5 = [Some MarkX, Some MarkX, Some MarkO, Some MarkX, Some MarkO, None, None, None, None]"

definition game_6 :: board where
  "game_6 = [Some MarkX, Some MarkX, Some MarkO, Some MarkX, Some MarkO, None, Some MarkO, None, None]"

section \<open>A call returns the board it was given\<close>

text \<open>
  \<open>minimax\<close> and its two loops return the score of \<open>ab\<close> and the board they were
  given: each iteration writes a mark into an empty cell and writes \<^verbatim>\<open>null\<close> back
  before it goes on or stops.
\<close>

lemma minimax_ab:
  "minimax b d m al be = (ab b d m al be, b)"
  "max_loop b' d' i bs al' be' = (ab_max b' d' i bs al' be', b')"
  "min_loop b'' d'' i' bs' al'' be'' = (ab_min b'' d'' i' bs' al'' be'', b'')"
proof (induct b d m al be and b' d' i bs al' be' and b'' d'' i' bs' al'' be''
       rule: ab_ab_max_ab_min.induct)
  case (1 board depth isMaximizing alpha beta)
  then show ?case
    by (subst minimax.simps, subst ab.simps) (simp add: Let_def)
next
  case (2 board depth i bestScore alpha beta)
  show ?case
  proof (cases "i < 9 \<and> rd board i = Some None")
    case True
    define s where "s = ab (board[i := Some MarkO]) (depth + 1) False alpha beta"
    have call: "minimax (board[i := Some MarkO]) (depth + 1) False alpha beta
                  = (s, board[i := Some MarkO])"
      using 2(1) True by (simp add: s_def)
    have restored: "board[i := Some MarkO, i := None] = board"
      using True by (simp add: restore_cell)
    have rest: "\<not> beta \<le> max alpha s \<Longrightarrow>
        max_loop board depth (i + 1) (max s bestScore) (max alpha s) beta
          = (ab_max board depth (i + 1) (max s bestScore) (max alpha s) beta, board)"
      using 2(2)[OF _ _ s_def] True by simp
    have lhs: "max_loop board depth i bestScore alpha beta =
        (if beta \<le> max alpha s then (max s bestScore, board)
         else max_loop board depth (i + 1) (max s bestScore) (max alpha s) beta)"
      using True
      by (subst max_loop.simps) (simp only: call restored Let_def if_True prod.case simp_thms)
    have rhs: "ab_max board depth i bestScore alpha beta =
        (if beta \<le> max alpha s then max s bestScore
         else ab_max board depth (i + 1) (max s bestScore) (max alpha s) beta)"
      using True
      by (subst ab_max.simps) (simp only: s_def[symmetric] Let_def if_True simp_thms)
    show ?thesis
      unfolding lhs rhs using rest by (cases "beta \<le> max alpha s") simp_all
  next
    case False
    then show ?thesis
      using 2(3)
      by (subst max_loop.simps, subst ab_max.simps) auto
  qed
next
  case (3 board depth i bestScore alpha beta)
  show ?case
  proof (cases "i < 9 \<and> rd board i = Some None")
    case True
    define s where "s = ab (board[i := Some MarkX]) (depth + 1) True alpha beta"
    have call: "minimax (board[i := Some MarkX]) (depth + 1) True alpha beta
                  = (s, board[i := Some MarkX])"
      using 3(1) True by (simp add: s_def)
    have restored: "board[i := Some MarkX, i := None] = board"
      using True by (simp add: restore_cell)
    have rest: "\<not> min beta s \<le> alpha \<Longrightarrow>
        min_loop board depth (i + 1) (min s bestScore) alpha (min beta s)
          = (ab_min board depth (i + 1) (min s bestScore) alpha (min beta s), board)"
      using 3(2)[OF _ _ s_def] True by simp
    have lhs: "min_loop board depth i bestScore alpha beta =
        (if min beta s \<le> alpha then (min s bestScore, board)
         else min_loop board depth (i + 1) (min s bestScore) alpha (min beta s))"
      using True
      by (subst min_loop.simps) (simp only: call restored Let_def if_True prod.case simp_thms)
    have rhs: "ab_min board depth i bestScore alpha beta =
        (if min beta s \<le> alpha then min s bestScore
         else ab_min board depth (i + 1) (min s bestScore) alpha (min beta s))"
      using True
      by (subst ab_min.simps) (simp only: s_def[symmetric] Let_def if_True simp_thms)
    show ?thesis
      unfolding lhs rhs using rest by (cases "min beta s \<le> alpha") simp_all
  next
    case False
    then show ?thesis
      using 3(3)
      by (subst min_loop.simps, subst ab_min.simps) auto
  qed
qed

section \<open>The loops of the exhaustive search\<close>

lemma mm_max_acc: "mm_max b d i best = max best (mm_max b d i MInf)"
proof (induction "9 - i" arbitrary: i best)
  case 0
  then show ?case by (simp add: mm_max.simps[of b d i] max_def)
next
  case (Suc n)
  then have n: "n = 9 - (i + 1)" and i: "i < 9" by simp_all
  show ?case
  proof (cases "rd b i = Some None")
    case True
    define s where "s = mm (b[i := Some MarkO]) (d + 1) False"
    have "mm_max b d i best = mm_max b d (i + 1) (max s best)"
      using i True by (simp add: mm_max.simps[of b d i] s_def)
    also have "\<dots> = max (max s best) (mm_max b d (i + 1) MInf)"
      using Suc(1)[OF n] .
    finally have l: "mm_max b d i best = max best (max s (mm_max b d (i + 1) MInf))"
      by (simp add: max.assoc max.commute max.left_commute)
    have "mm_max b d i MInf = mm_max b d (i + 1) (max s MInf)"
      using i True by (simp add: mm_max.simps[of b d i] s_def)
    also have "\<dots> = max (max s MInf) (mm_max b d (i + 1) MInf)"
      using Suc(1)[OF n] .
    finally have r: "mm_max b d i MInf = max s (mm_max b d (i + 1) MInf)"
      by (simp add: max_def)
    show ?thesis by (simp add: l r)
  next
    case False
    then show ?thesis
      using i Suc(1)[OF n, of best] by (simp add: mm_max.simps[of b d i])
  qed
qed

lemma mm_min_acc: "mm_min b d i best = min best (mm_min b d i PInf)"
proof (induction "9 - i" arbitrary: i best)
  case 0
  then show ?case by (simp add: mm_min.simps[of b d i] min_def)
next
  case (Suc n)
  then have n: "n = 9 - (i + 1)" and i: "i < 9" by simp_all
  show ?case
  proof (cases "rd b i = Some None")
    case True
    define s where "s = mm (b[i := Some MarkX]) (d + 1) True"
    have "mm_min b d i best = mm_min b d (i + 1) (min s best)"
      using i True by (simp add: mm_min.simps[of b d i] s_def)
    also have "\<dots> = min (min s best) (mm_min b d (i + 1) PInf)"
      using Suc(1)[OF n] .
    finally have l: "mm_min b d i best = min best (min s (mm_min b d (i + 1) PInf))"
      by (simp add: min.assoc min.commute min.left_commute)
    have "mm_min b d i PInf = mm_min b d (i + 1) (min s PInf)"
      using i True by (simp add: mm_min.simps[of b d i] s_def)
    also have "\<dots> = min (min s PInf) (mm_min b d (i + 1) PInf)"
      using Suc(1)[OF n] .
    finally have r: "mm_min b d i PInf = min s (mm_min b d (i + 1) PInf)"
      by (simp add: min_def)
    show ?thesis by (simp add: l r)
  next
    case False
    then show ?thesis
      using i Suc(1)[OF n, of best] by (simp add: mm_min.simps[of b d i])
  qed
qed

text \<open>One step of each loop of the exhaustive search, from the start value of the loop.\<close>

lemma mm_max_step:
  "mm_max b d i MInf =
     (if i < 9 then
        (if rd b i = Some None
         then max (mm (b[i := Some MarkO]) (d + 1) False) (mm_max b d (i + 1) MInf)
         else mm_max b d (i + 1) MInf)
      else MInf)"
proof -
  have "max (mm (b[i := Some MarkO]) (d + 1) False) MInf = mm (b[i := Some MarkO]) (d + 1) False"
    by (simp add: max_def)
  then show ?thesis
    using mm_max_acc[of b d "i + 1" "mm (b[i := Some MarkO]) (d + 1) False"]
    by (simp add: mm_max.simps[of b d i])
qed

lemma mm_min_step:
  "mm_min b d i PInf =
     (if i < 9 then
        (if rd b i = Some None
         then min (mm (b[i := Some MarkX]) (d + 1) True) (mm_min b d (i + 1) PInf)
         else mm_min b d (i + 1) PInf)
      else PInf)"
proof -
  have "min (mm (b[i := Some MarkX]) (d + 1) True) PInf = mm (b[i := Some MarkX]) (d + 1) True"
    by (simp add: min_def)
  then show ?thesis
    using mm_min_acc[of b d "i + 1" "mm (b[i := Some MarkX]) (d + 1) True"]
    by (simp add: mm_min.simps[of b d i])
qed

section \<open>Pruning does not change the value\<close>

text \<open>
  One iteration of a loop, from what the window says about the cell just tried
  (\<open>vi\<close> its exhaustive value, \<open>s\<close> the score the pruned search returned for it):
  the loop's facts hold when the loop stops at the \<^verbatim>\<open>break\<close>, and they follow from
  the facts of the remaining iterations when it goes on.
\<close>

lemma max_step_break:
  fixes s :: score
  assumes "window_ok alpha beta vi s" "bestScore \<le> alpha" "alpha < beta" "beta \<le> max alpha s"
  shows "max_loop_ok bestScore alpha beta (max vi vrest) (max s bestScore)"
  using assms unfolding window_ok_def max_loop_ok_def
  by (auto simp: max_def not_le not_less split: if_splits)

lemma max_step_go:
  fixes s :: score
  assumes "window_ok alpha beta vi s" "bestScore \<le> alpha" "alpha < beta" "\<not> beta \<le> max alpha s"
    and "max_loop_ok (max s bestScore) (max alpha s) beta vrest r"
  shows "max_loop_ok bestScore alpha beta (max vi vrest) r"
  using assms unfolding window_ok_def max_loop_ok_def
  by (auto simp: max_def not_le not_less split: if_splits)

lemma min_step_break:
  fixes s :: score
  assumes "window_ok alpha beta vi s" "beta \<le> bestScore" "alpha < beta" "min beta s \<le> alpha"
  shows "min_loop_ok bestScore alpha beta (min vi vrest) (min s bestScore)"
  using assms unfolding window_ok_def min_loop_ok_def
  by (auto simp: min_def not_le not_less split: if_splits)

lemma min_step_go:
  fixes s :: score
  assumes "window_ok alpha beta vi s" "beta \<le> bestScore" "alpha < beta" "\<not> min beta s \<le> alpha"
    and "min_loop_ok (min s bestScore) alpha (min beta s) vrest r"
  shows "min_loop_ok bestScore alpha beta (min vi vrest) r"
  using assms unfolding window_ok_def min_loop_ok_def
  by (auto simp: min_def not_le not_less split: if_splits)

text \<open>
  By induction over the pruned search: a call with \<open>alpha < beta\<close> returns a score
  that the window relates to the exhaustive value, and the loops keep their facts.
\<close>

lemma ab_window:
  "alpha < beta \<Longrightarrow> window_ok alpha beta (mm b d m) (ab b d m alpha beta)"
  "bs \<le> alpha' \<Longrightarrow> alpha' < beta' \<Longrightarrow>
     max_loop_ok bs alpha' beta' (mm_max b' d' i MInf) (ab_max b' d' i bs alpha' beta')"
  "beta'' \<le> bs' \<Longrightarrow> alpha'' < beta'' \<Longrightarrow>
     min_loop_ok bs' alpha'' beta'' (mm_min b'' d'' i' PInf) (ab_min b'' d'' i' bs' alpha'' beta'')"
proof (induct b d m alpha beta and b' d' i bs alpha' beta' and b'' d'' i' bs' alpha'' beta''
       rule: ab_ab_max_ab_min.induct)
  case (1 board depth isMaximizing alpha beta)
  show ?case
  proof (cases "checkWinner board = Some MarkO \<or> checkWinner board = Some MarkX \<or> checkDraw board")
    case True
    then have "ab board depth isMaximizing alpha beta = mm board depth isMaximizing"
      by (subst ab.simps, subst mm.simps) auto
    then show ?thesis by (simp add: window_ok_def)
  next
    case False
    show ?thesis
    proof (cases isMaximizing)
      case True
      have "max_loop_ok MInf alpha beta (mm_max board depth 0 MInf) (ab_max board depth 0 MInf alpha beta)"
        using 1(1) False True 1(3) by simp
      moreover have "ab board depth isMaximizing alpha beta = ab_max board depth 0 MInf alpha beta"
        using False True by (subst ab.simps) simp
      moreover have "mm board depth isMaximizing = mm_max board depth 0 MInf"
        using False True by (subst mm.simps) simp
      ultimately show ?thesis
        using 1(3) unfolding window_ok_def max_loop_ok_def
        by (auto simp: not_le not_less)
    next
      case notmax: False
      have "min_loop_ok PInf alpha beta (mm_min board depth 0 PInf) (ab_min board depth 0 PInf alpha beta)"
        using 1(2) False notmax 1(3) by simp
      moreover have "ab board depth isMaximizing alpha beta = ab_min board depth 0 PInf alpha beta"
        using False notmax by (subst ab.simps) simp
      moreover have "mm board depth isMaximizing = mm_min board depth 0 PInf"
        using False notmax by (subst mm.simps) simp
      ultimately show ?thesis
        using 1(3) unfolding window_ok_def min_loop_ok_def
        by (auto simp: not_le not_less)
    qed
  qed
next
  case (2 board depth i bestScore alpha beta)
  note bounds = 2(4,5)
  show ?case
  proof (cases "i < 9")
    case False
    then have "ab_max board depth i bestScore alpha beta = bestScore"
      by (subst ab_max.simps) simp
    moreover have "mm_max board depth i MInf = MInf"
      using False by (subst mm_max_step) simp
    ultimately show ?thesis
      using bounds unfolding max_loop_ok_def by (auto simp: not_le not_less)
  next
    case i: True
    show ?thesis
    proof (cases "rd board i = Some None")
      case False
      have "ab_max board depth i bestScore alpha beta = ab_max board depth (i + 1) bestScore alpha beta"
        using i False by (subst ab_max.simps) simp
      moreover have "mm_max board depth i MInf = mm_max board depth (i + 1) MInf"
        using i False by (subst mm_max_step) simp
      ultimately show ?thesis
        using 2(3)[OF i False bounds] by simp
    next
      case True
      define s where "s = ab (board[i := Some MarkO]) (depth + 1) False alpha beta"
      define vi where "vi = mm (board[i := Some MarkO]) (depth + 1) False"
      define vrest where "vrest = mm_max board depth (i + 1) MInf"
      have child: "window_ok alpha beta vi s"
        using 2(1)[OF i True bounds(2)] by (simp add: s_def vi_def)
      have v: "mm_max board depth i MInf = max vi vrest"
        using i True by (subst mm_max_step) (simp add: vi_def vrest_def)
      have r: "ab_max board depth i bestScore alpha beta =
          (if beta \<le> max alpha s then max s bestScore
           else ab_max board depth (i + 1) (max s bestScore) (max alpha s) beta)"
        using i True by (subst ab_max.simps) (simp only: s_def[symmetric] Let_def if_True simp_thms)
      show ?thesis
      proof (cases "beta \<le> max alpha s")
        case True
        then show ?thesis
          unfolding v r using max_step_break[OF child bounds True] by simp
      next
        case False
        have le: "max s bestScore \<le> max alpha s"
          using bounds(1) by (auto simp: max_def)
        have lt: "max alpha s < beta" using False by (simp add: not_le)
        have "max_loop_ok (max s bestScore) (max alpha s) beta vrest
                (ab_max board depth (i + 1) (max s bestScore) (max alpha s) beta)"
          using 2(2)[OF i True s_def False le lt] by (simp add: vrest_def)
        then show ?thesis
          unfolding v r using max_step_go[OF child bounds False] False by simp
      qed
    qed
  qed
next
  case (3 board depth i bestScore alpha beta)
  note bounds = 3(4,5)
  show ?case
  proof (cases "i < 9")
    case False
    then have "ab_min board depth i bestScore alpha beta = bestScore"
      by (subst ab_min.simps) simp
    moreover have "mm_min board depth i PInf = PInf"
      using False by (subst mm_min_step) simp
    ultimately show ?thesis
      using bounds unfolding min_loop_ok_def by (auto simp: not_le not_less)
  next
    case i: True
    show ?thesis
    proof (cases "rd board i = Some None")
      case False
      have "ab_min board depth i bestScore alpha beta = ab_min board depth (i + 1) bestScore alpha beta"
        using i False by (subst ab_min.simps) simp
      moreover have "mm_min board depth i PInf = mm_min board depth (i + 1) PInf"
        using i False by (subst mm_min_step) simp
      ultimately show ?thesis
        using 3(3)[OF i False bounds] by simp
    next
      case True
      define s where "s = ab (board[i := Some MarkX]) (depth + 1) True alpha beta"
      define vi where "vi = mm (board[i := Some MarkX]) (depth + 1) True"
      define vrest where "vrest = mm_min board depth (i + 1) PInf"
      have child: "window_ok alpha beta vi s"
        using 3(1)[OF i True bounds(2)] by (simp add: s_def vi_def)
      have v: "mm_min board depth i PInf = min vi vrest"
        using i True by (subst mm_min_step) (simp add: vi_def vrest_def)
      have r: "ab_min board depth i bestScore alpha beta =
          (if min beta s \<le> alpha then min s bestScore
           else ab_min board depth (i + 1) (min s bestScore) alpha (min beta s))"
        using i True by (subst ab_min.simps) (simp only: s_def[symmetric] Let_def if_True simp_thms)
      show ?thesis
      proof (cases "min beta s \<le> alpha")
        case True
        then show ?thesis
          unfolding v r using min_step_break[OF child bounds True] by simp
      next
        case False
        have le: "min beta s \<le> min s bestScore"
          using bounds(1) by (auto simp: min_def)
        have lt: "alpha < min beta s" using False by (simp add: not_le)
        have "min_loop_ok (min s bestScore) alpha (min beta s) vrest
                (ab_min board depth (i + 1) (min s bestScore) alpha (min beta s))"
          using 3(2)[OF i True s_def False le lt] by (simp add: vrest_def)
        then show ?thesis
          unfolding v r using min_step_go[OF child bounds False] False by simp
      qed
    qed
  qed
qed

lemma ab_full_window: "ab b d m MInf PInf = mm b d m"
proof -
  have "window_ok MInf PInf (mm b d m) (ab b d m MInf PInf)"
    by (rule ab_window(1)) simp
  then show ?thesis
    by (cases "ab b d m MInf PInf"; cases "mm b d m") (auto simp: window_ok_def)
qed

section \<open>The top-level loop\<close>

text \<open>
  The top-level loop calls \<open>minimax\<close> with the full window, so it returns the move
  of \<open>best_full\<close> and the board it was given.
\<close>

lemma best_loop_full: "best_loop b i m s = (best_full b i m s, b)"
proof (induction "9 - i" arbitrary: i m s)
  case 0
  then show ?case
    by (subst best_loop.simps, subst best_full.simps) simp
next
  case (Suc n)
  then have n: "n = 9 - (i + 1)" and i: "i < 9" by simp_all
  show ?case
  proof (cases "rd b i = Some None")
    case True
    have call: "minimax (b[i := Some MarkO]) 0 False MInf PInf
                  = (mm (b[i := Some MarkO]) 0 False, b[i := Some MarkO])"
      by (simp add: minimax_ab(1) ab_full_window)
    have restored: "b[i := Some MarkO, i := None] = b"
      using True by (simp add: restore_cell)
    have lhs: "best_loop b i m s =
        (if s < mm (b[i := Some MarkO]) 0 False
         then best_loop b (i + 1) (int i) (mm (b[i := Some MarkO]) 0 False)
         else best_loop b (i + 1) m s)"
      using i True
      by (subst best_loop.simps) (simp only: call restored Let_def if_True prod.case simp_thms)
    have rhs: "best_full b i m s =
        (if s < mm (b[i := Some MarkO]) 0 False
         then best_full b (i + 1) (int i) (mm (b[i := Some MarkO]) 0 False)
         else best_full b (i + 1) m s)"
      using i True
      by (subst best_full.simps) (simp only: Let_def if_True simp_thms)
    show ?thesis
      unfolding lhs rhs using Suc(1)[OF n] by simp
  next
    case False
    then show ?thesis
      using i Suc(1)[OF n]
      by (subst best_loop.simps, subst best_full.simps) simp
  qed
qed

text \<open>
  What the loop returns: either no empty cell from \<open>i\<close> on scores above \<open>bestScore\<close> and
  \<open>bestMove\<close> is returned unchanged, or the result is an empty cell whose score is above
  \<open>bestScore\<close> and at least the score of every empty cell from \<open>i\<close> on.
\<close>

lemma best_full_spec:
  "(best_full b i m s = m \<and>
      (\<forall>j. i \<le> j \<and> j < 9 \<and> rd b j = Some None \<longrightarrow> mm (b[j := Some MarkO]) 0 False \<le> s))
   \<or> (\<exists>j. i \<le> j \<and> j < 9 \<and> rd b j = Some None \<and> best_full b i m s = int j \<and>
          s < mm (b[j := Some MarkO]) 0 False \<and>
          (\<forall>k. i \<le> k \<and> k < 9 \<and> rd b k = Some None \<longrightarrow>
             mm (b[k := Some MarkO]) 0 False \<le> mm (b[j := Some MarkO]) 0 False))"
  (is "?L i m s \<or> ?R i m s")
proof (induction "9 - i" arbitrary: i m s)
  case 0
  then have "best_full b i m s = m" by (subst best_full.simps) simp
  then show ?case using 0 by auto
next
  case (Suc n)
  then have n: "n = 9 - (i + 1)" and i: "i < 9" by simp_all
  have split: "\<And>j. i \<le> j \<Longrightarrow> j = i \<or> i + 1 \<le> j" by auto
  show ?case
  proof (cases "rd b i = Some None")
    case False
    have eq: "best_full b i m s = best_full b (i + 1) m s"
      using i False by (subst best_full.simps) simp
    from Suc(1)[OF n, of m s] show ?thesis
    proof
      assume "?L (i + 1) m s"
      then have "?L i m s" unfolding eq using False split by blast
      then show ?thesis ..
    next
      assume "?R (i + 1) m s"
      then obtain j where j: "i + 1 \<le> j" "j < 9" "rd b j = Some None"
        "best_full b (i + 1) m s = int j" "s < mm (b[j := Some MarkO]) 0 False"
        "\<forall>k. i + 1 \<le> k \<and> k < 9 \<and> rd b k = Some None \<longrightarrow>
             mm (b[k := Some MarkO]) 0 False \<le> mm (b[j := Some MarkO]) 0 False"
        by blast
      have "\<forall>k. i \<le> k \<and> k < 9 \<and> rd b k = Some None \<longrightarrow>
             mm (b[k := Some MarkO]) 0 False \<le> mm (b[j := Some MarkO]) 0 False"
        using j(6) False split by blast
      then have "?R i m s" unfolding eq using j by (intro exI[of _ j]) simp
      then show ?thesis ..
    qed
  next
    case True
    define sc where "sc = (\<lambda>j. mm (b[j := Some MarkO]) 0 False)"
    show ?thesis
    proof (cases "s < sc i")
      case less: True
      have eq: "best_full b i m s = best_full b (i + 1) (int i) (sc i)"
        using i True less by (subst best_full.simps) (simp add: sc_def)
      from Suc(1)[OF n, of "int i" "sc i"] have "?R i m s"
      proof
        assume "?L (i + 1) (int i) (sc i)"
        then have "\<forall>k. i \<le> k \<and> k < 9 \<and> rd b k = Some None \<longrightarrow> sc k \<le> sc i"
          unfolding sc_def using split by (metis order_refl)
        moreover have "best_full b i m s = int i"
          using \<open>?L (i + 1) (int i) (sc i)\<close> eq by simp
        ultimately show ?thesis
          using i True less unfolding sc_def by (intro exI[of _ i]) simp
      next
        assume "?R (i + 1) (int i) (sc i)"
        then obtain j where j: "i + 1 \<le> j" "j < 9" "rd b j = Some None"
          "best_full b (i + 1) (int i) (sc i) = int j" "sc i < sc j"
          "\<forall>k. i + 1 \<le> k \<and> k < 9 \<and> rd b k = Some None \<longrightarrow> sc k \<le> sc j"
          unfolding sc_def by blast
        have "\<forall>k. i \<le> k \<and> k < 9 \<and> rd b k = Some None \<longrightarrow> sc k \<le> sc j"
          using j(5,6) split by (metis less_imp_le)
        moreover have "s < sc j" using less j(5) by simp
        ultimately show ?thesis
          using j eq unfolding sc_def by (intro exI[of _ j]) simp
      qed
      then show ?thesis ..
    next
      case notless: False
      have eq: "best_full b i m s = best_full b (i + 1) m s"
        using i True notless by (subst best_full.simps) (simp add: sc_def)
      have here: "sc i \<le> s" using notless by (simp add: not_less)
      from Suc(1)[OF n, of m s] show ?thesis
      proof
        assume "?L (i + 1) m s"
        then have "\<forall>j. i \<le> j \<and> j < 9 \<and> rd b j = Some None \<longrightarrow> sc j \<le> s"
          unfolding sc_def using split here[unfolded sc_def] by metis
        then have "?L i m s" using \<open>?L (i + 1) m s\<close> unfolding eq sc_def by simp
        then show ?thesis ..
      next
        assume "?R (i + 1) m s"
        then obtain j where j: "i + 1 \<le> j" "j < 9" "rd b j = Some None"
          "best_full b (i + 1) m s = int j" "s < sc j"
          "\<forall>k. i + 1 \<le> k \<and> k < 9 \<and> rd b k = Some None \<longrightarrow> sc k \<le> sc j"
          unfolding sc_def by blast
        have "sc i \<le> sc j" using here j(5) by simp
        then have "\<forall>k. i \<le> k \<and> k < 9 \<and> rd b k = Some None \<longrightarrow> sc k \<le> sc j"
          using j(6) split by metis
        then have "?R i m s" using j unfolding eq sc_def by (intro exI[of _ j]) simp
        then show ?thesis ..
      qed
    qed
  qed
qed

section \<open>Facts about move selection\<close>

text \<open>
  \<open>availableMoves\<close> holds the indices of the empty cells, and a draw that is a
  double in \<open>[0, 1)\<close> reads it in range when it is not empty.
\<close>

lemma set_availableMoves:
  "set (availableMoves b) = {i. i < length b \<and> b ! i = None}"
proof (rule set_eqI)
  fix i
  have "i \<in> set (availableMoves b) \<longleftrightarrow>
      (\<exists>p \<in> set (enumerate 0 b). snd p = None \<and> fst p = i)"
    unfolding availableMoves_def
    by (force simp: image_iff split: if_splits)
  also have "\<dots> \<longleftrightarrow> i < length b \<and> b ! i = None"
    by (auto simp: in_set_enumerate_eq Bex_def)
  finally show "i \<in> set (availableMoves b) \<longleftrightarrow> i \<in> {i. i < length b \<and> b ! i = None}"
    by simp
qed

lemma availableMoves_full: "list_all (\<lambda>cell. cell \<noteq> None) b \<Longrightarrow> availableMoves b = []"
proof -
  assume "list_all (\<lambda>cell. cell \<noteq> None) b"
  then have "set (availableMoves b) = {}"
    by (auto simp: set_availableMoves list_all_length)
  then show ?thesis by simp
qed

text \<open>
  A natural number that is not 0 has its leading bit at position \<open>bits n - 1\<close>.
\<close>

lemma bits_bounds: "0 < n \<Longrightarrow> 2 ^ (bits n - 1) \<le> n \<and> n < 2 ^ bits n"
proof (induction n rule: bits.induct)
  case (1 n)
  show ?case
  proof (cases "n div 2 = 0")
    case True
    then have "n = 1" using 1(2) by (simp add: div_eq_0_iff)
    then show ?thesis by (simp add: bits.simps[of "Suc 0"] bits.simps[of 0])
  next
    case False
    then have pos: "0 < n div 2" by simp
    have IH: "2 ^ (bits (n div 2) - 1) \<le> n div 2 \<and> n div 2 < 2 ^ bits (n div 2)"
      using 1(1) 1(2) pos by simp
    have b: "bits n = Suc (bits (n div 2))" using 1(2) by (subst bits.simps) simp
    have bpos: "0 < bits (n div 2)" using pos by (subst bits.simps) simp
    then obtain c where c: "bits (n div 2) = Suc c" by (cases "bits (n div 2)") simp_all
    have "2 * 2 ^ c \<le> 2 * (n div 2)" using IH c by simp
    also have "\<dots> \<le> n" by simp
    finally have lo: "2 ^ (bits n - 1) \<le> n" using b c by simp
    have "n < 2 * (n div 2) + 2" by presburger
    also have "\<dots> \<le> 2 * 2 ^ bits (n div 2)" using IH by simp
    finally have hi: "n < 2 ^ bits n" using b by simp
    show ?thesis using lo hi by simp
  qed
qed

lemma bits_numeral:
  "bits 0 = 0" "bits (Suc 0) = Suc 0" "bits 1 = Suc 0"
  "bits (numeral w) = Suc (bits (numeral w div 2))"
  by (simp_all add: bits.simps[of 0] bits.simps[of "Suc 0"] bits.simps[of "numeral w"])

text \<open>Rounding moves the product up by at most half of the last bit kept.\<close>

lemma round_half_even_le: "2 * (round_half_even M s * 2 ^ s) \<le> 2 * M + 2 ^ s"
proof -
  define q where "q = M div 2 ^ s"
  define rest where "rest = M mod 2 ^ s"
  have M: "M = q * 2 ^ s + rest" unfolding q_def rest_def
    using div_mult_mod_eq[of M "2 ^ s"] by simp
  show ?thesis
  proof (cases "2 ^ s < 2 * rest \<or> (2 * rest = 2 ^ s \<and> odd q)")
    case True
    then have "round_half_even M s = q + 1"
      by (simp add: round_half_even_def Let_def q_def rest_def)
    moreover have "2 ^ s \<le> 2 * rest" using True by auto
    ultimately show ?thesis using M by (simp add: algebra_simps)
  next
    case False
    then have "round_half_even M s = q"
      by (simp add: round_half_even_def Let_def q_def rest_def)
    then show ?thesis using M by (simp add: algebra_simps)
  qed
qed

text \<open>
  The rounded product of a double below 1 and a length \<open>n\<close> stays below \<open>n\<close>. The
  exact product \<open>m * n / 2 ^ k\<close> is at least \<open>n / 2 ^ k\<close> below \<open>n\<close>, and rounding
  adds at most \<open>2 ^ s / 2\<close> to \<open>m * n\<close>, where \<open>2 ^ s < 2 * n\<close> because \<open>m\<close> has at
  most 53 bits.
\<close>

lemma product_floor_less:
  assumes "is_double r" "dval r < 1" "0 < n"
  shows "product_floor r n < n"
proof -
  define m where "m = mant r"
  define k where "k = scale r"
  define M where "M = m * n"
  define s where "s = bits M - 53"
  define R where "R = round_half_even M s * 2 ^ s"
  have m53: "m < 2 ^ 53" using assms(1) by (simp add: is_double_def m_def)
  have "real m < 2 ^ k" using assms(2) by (simp add: dval_def m_def k_def)
  then have "real m < real (2 ^ k)" by simp
  then have mk: "m < 2 ^ k" by (simp only: of_nat_less_iff)
  then have "(m + 1) * n \<le> 2 ^ k * n" by (intro mult_le_mono1) simp
  then have Mn: "M + n \<le> n * 2 ^ k" by (simp add: M_def algebra_simps)
  have small: "2 ^ s < 2 * n"
  proof (cases "s = 0")
    case True
    then show ?thesis using assms(3) by simp
  next
    case False
    then have b: "bits M = s + 53" by (simp add: s_def)
    then have "0 < M" by (cases "M = 0") (simp_all add: bits.simps[of 0])
    then have "2 ^ (bits M - 1) \<le> M" using bits_bounds by blast
    then have "(2::nat) ^ (s + 52) \<le> M" using b by (simp add: add.commute)
    also have "M < 2 ^ 53 * n" unfolding M_def using m53 assms(3) by simp
    finally have "(2::nat) ^ s * 2 ^ 52 < (2 * n) * 2 ^ 52" by (simp add: power_add)
    then show ?thesis by simp
  qed
  have "2 * R \<le> 2 * M + 2 ^ s" unfolding R_def by (rule round_half_even_le)
  also have "\<dots> < 2 * M + 2 * n" using small by simp
  also have "\<dots> \<le> 2 * (n * 2 ^ k)" using Mn by simp
  finally have "R < n * 2 ^ k" by simp
  then have "R div 2 ^ k < n" by (rule less_mult_imp_div_less)
  then show ?thesis
    by (simp add: product_floor_def Let_def R_def M_def s_def m_def k_def)
qed

lemma pick_empty: "pick [] r = Undefined"
  by (simp add: pick_def Let_def)

lemma pick_in_range:
  assumes "is_double r" "dval r < 1" "moves \<noteq> []"
  shows "\<exists>k < length moves. pick moves r = Num (int (moves ! k))"
proof -
  have "product_floor r (length moves) < length moves"
    using product_floor_less[OF assms(1,2)] assms(3) by simp
  then have "pick moves r = Num (int (moves ! product_floor r (length moves)))"
    by (simp add: pick_def Let_def)
  then show ?thesis
    using \<open>product_floor r (length moves) < length moves\<close> by blast
qed

lemma rd_None_iff: "rd b i = Some None \<longleftrightarrow> i < length b \<and> b ! i = None"
  by (auto simp: rd_def)

lemma pick_available:
  assumes "is_double r" "dval r < 1" "availableMoves b \<noteq> []"
  shows "\<exists>j. pick (availableMoves b) r = Num (int j) \<and> rd b j = Some None"
proof -
  obtain k where k: "k < length (availableMoves b)"
    "pick (availableMoves b) r = Num (int (availableMoves b ! k))"
    using pick_in_range[OF assms] by blast
  have "availableMoves b ! k \<in> set (availableMoves b)" using k(1) by simp
  then have "rd b (availableMoves b ! k) = Some None"
    by (simp add: set_availableMoves rd_None_iff)
  then show ?thesis using k(2) by blast
qed

text \<open>The three ways \<open>getBestMove\<close> can go, each with what it returns.\<close>

lemma getBestMove_cases:
  "(\<exists>r g'. getBestMove b diff g = (pick (availableMoves b) r, b, g') \<and> diff \<noteq> Hard \<and>
        (\<exists>n. r = g n))
   \<or> (\<exists>g'. getBestMove b diff g = (Num (best_full b 0 (- 1) MInf), b, g'))"
  by (auto simp: getBestMove_def Let_def best_loop_full random_def)

lemma getBestMove_Hard:
  "getBestMove b Hard g = (Num (best_full b 0 (- 1) MInf), b, g)"
  by (simp add: getBestMove_def Let_def best_loop_full)

lemma best_full_none:
  assumes "\<forall>j < 9. rd b j \<noteq> Some None"
  shows "best_full b i m s = m"
  using best_full_spec[of b i m s] assms by auto

lemma full_iff: "list_all (\<lambda>cell. cell \<noteq> None) b \<longleftrightarrow> None \<notin> set b"
  unfolding list_all_iff by metis

lemma full_no_empty: "list_all (\<lambda>cell. cell \<noteq> None) b \<Longrightarrow> rd b j \<noteq> Some None"
  by (auto simp: rd_def list_all_length)

section \<open>Moves on the concrete boards\<close>

lemma example_board_best: "best_full example_board 0 (- 1) MInf = 5"
  by code_simp

lemma drawn_board_full: "list_all (\<lambda>cell. cell \<noteq> None) drawn_board"
  by (simp add: drawn_board_def)

lemma rng_half_random: "random rng_half = (Double 1 1, rng_half)"
  by (simp add: random_def rng_half_def)

lemma rng_half_draws: "\<forall>n. is_double (rng_half n) \<and> 0 \<le> dval (rng_half n) \<and> dval (rng_half n) < 1"
  by (simp add: rng_half_def is_double_def dval_def)

lemma rng_third_draws: "\<forall>n. is_double (rng_third n) \<and> 0 \<le> dval (rng_third n) \<and> dval (rng_third n) < 1"
  by (simp add: rng_third_def is_double_def dval_def)

text \<open>
  On \<open>rounding_board\<close> with the draws of \<open>rng_third\<close>, Easy \<open>getBestMove\<close> takes
  the random branch, the rounded product is 1 and the second of the three empty cells
  is returned.
\<close>

lemma rounding_board_easy: "fst (getBestMove rounding_board Easy rng_third) = Num 7"
proof -
  have moves: "availableMoves rounding_board = [6, 7, 8]" by code_simp
  have g0: "fst (random rng_third) = Double 0 0"
    by (simp add: random_def rng_third_def)
  have g1: "fst (random (snd (random rng_third))) = Double 6004799503160661 54"
    by (simp add: random_def rng_third_def)
  have gate: "dval (Double 0 0) < dval lit_0_7"
    by (simp add: dval_def lit_0_7_def)
  have prod: "product_floor (Double 6004799503160661 54) 3 = 1"
    by (simp add: product_floor_def round_half_even_def Let_def bits_numeral)
  have len: "length [6::nat, 7, 8] = 3" by simp
  have chosen: "pick [6, 7, 8] (Double 6004799503160661 54) = Num 7"
    unfolding pick_def Let_def len prod by simp
  show ?thesis
    by (simp add: getBestMove_def Let_def g0 g1 gate moves chosen)
qed

lemma full_board_result:
  assumes "list_all (\<lambda>cell. cell \<noteq> None) b"
  shows "fst (getBestMove b diff g) = Num (- 1) \<or> (diff \<noteq> Hard \<and> fst (getBestMove b diff g) = Undefined)"
proof -
  have "best_full b 0 (- 1) MInf = - 1"
    using assms by (intro best_full_none) (simp add: full_no_empty)
  moreover have "pick (availableMoves b) r = Undefined" for r
    using assms by (simp add: availableMoves_full pick_empty)
  ultimately show ?thesis
    using getBestMove_cases[of b diff g] by auto
qed

lemma full_board_invalid:
  assumes "list_all (\<lambda>cell. cell \<noteq> None) b"
  shows "\<not> valid_move b v"
  using assms by (simp add: valid_move_def full_no_empty)

lemma getBestMove_board: "fst (snd (getBestMove b diff g)) = b"
  using getBestMove_cases[of b diff g] by auto

section \<open>The first completed line decides the winner\<close>

text \<open>
  On lines whose three indices are inside the board, \<open>checkWinner\<close> returns the mark
  of the first line of the list that is completed, and \<^verbatim>\<open>null\<close> when none is.
\<close>

lemma line_winner_completed:
  assumes "in_board board line"
  shows "line_winner board line = Some p \<longleftrightarrow> completed board line p"
  using assms
  by (cases line) (auto simp: in_board_def completed_def rd_def split: option.splits)

lemma line_winner_None:
  assumes "in_board board line"
  shows "line_winner board line = None \<longleftrightarrow> (\<forall>q. \<not> completed board line q)"
proof -
  have "line_winner board line = None \<longleftrightarrow> (\<forall>q. line_winner board line \<noteq> Some q)"
    by (cases "line_winner board line") auto
  then show ?thesis using line_winner_completed[OF assms] by simp
qed

lemma checkWinner_loop_first:
  assumes "\<forall>line \<in> set ls. in_board board line"
  shows "checkWinner_loop board ls = Some p \<longleftrightarrow>
     (\<exists>k < length ls. completed board (ls ! k) p \<and>
        (\<forall>j < k. \<forall>q. \<not> completed board (ls ! j) q))"
  using assms
proof (induction ls)
  case Nil
  then show ?case by simp
next
  case (Cons l ls)
  then have l: "in_board board l" and ls: "\<forall>line \<in> set ls. in_board board line" by simp_all
  note IH = Cons.IH[OF ls]
  show ?case
  proof (cases "line_winner board l")
    case (Some w)
    then have w: "completed board l w" using line_winner_completed[OF l] by simp
    have only: "completed board l q \<Longrightarrow> q = w" for q
      using w by (cases l) (auto simp: completed_def)
    show ?thesis
    proof
      assume "checkWinner_loop board (l # ls) = Some p"
      then have "p = w" using Some by simp
      then have "completed board ((l # ls) ! 0) p \<and>
          (\<forall>j < 0. \<forall>q. \<not> completed board ((l # ls) ! j) q)" using w by simp
      then show "\<exists>k < length (l # ls). completed board ((l # ls) ! k) p \<and>
          (\<forall>j < k. \<forall>q. \<not> completed board ((l # ls) ! j) q)"
        by (intro exI[of _ 0]) simp
    next
      assume "\<exists>k < length (l # ls). completed board ((l # ls) ! k) p \<and>
          (\<forall>j < k. \<forall>q. \<not> completed board ((l # ls) ! j) q)"
      then obtain k where k: "completed board ((l # ls) ! k) p"
        "\<forall>j < k. \<forall>q. \<not> completed board ((l # ls) ! j) q" by blast
      have "k = 0"
      proof (rule ccontr)
        assume "k \<noteq> 0"
        then have "\<not> completed board ((l # ls) ! 0) w" using k(2) by blast
        then show False using w by simp
      qed
      then have "p = w" using k(1) only by simp
      then show "checkWinner_loop board (l # ls) = Some p" using Some by simp
    qed
  next
    case None
    then have none: "\<forall>q. \<not> completed board l q" using line_winner_None[OF l] by simp
    have "checkWinner_loop board (l # ls) = Some p \<longleftrightarrow> checkWinner_loop board ls = Some p"
      using None by simp
    also have "\<dots> \<longleftrightarrow> (\<exists>k < length ls. completed board (ls ! k) p \<and>
        (\<forall>j < k. \<forall>q. \<not> completed board (ls ! j) q))"
      by (rule IH)
    also have "\<dots> \<longleftrightarrow> (\<exists>k < length (l # ls). completed board ((l # ls) ! k) p \<and>
        (\<forall>j < k. \<forall>q. \<not> completed board ((l # ls) ! j) q))"
    proof
      assume "\<exists>k < length ls. completed board (ls ! k) p \<and>
        (\<forall>j < k. \<forall>q. \<not> completed board (ls ! j) q)"
      then obtain k where k: "k < length ls" "completed board (ls ! k) p"
        "\<forall>j < k. \<forall>q. \<not> completed board (ls ! j) q" by blast
      have "\<forall>j < Suc k. \<forall>q. \<not> completed board ((l # ls) ! j) q"
        using k(3) none by (auto simp: nth_Cons split: nat.splits)
      then show "\<exists>k < length (l # ls). completed board ((l # ls) ! k) p \<and>
        (\<forall>j < k. \<forall>q. \<not> completed board ((l # ls) ! j) q)"
        using k(1,2) by (intro exI[of _ "Suc k"]) simp
    next
      assume "\<exists>k < length (l # ls). completed board ((l # ls) ! k) p \<and>
        (\<forall>j < k. \<forall>q. \<not> completed board ((l # ls) ! j) q)"
      then obtain k where k: "k < length (l # ls)" "completed board ((l # ls) ! k) p"
        "\<forall>j < k. \<forall>q. \<not> completed board ((l # ls) ! j) q" by blast
      obtain k' where k': "k = Suc k'"
        using k(2) none by (cases k) auto
      have "\<forall>j < k'. \<forall>q. \<not> completed board (ls ! j) q"
      proof (intro allI impI)
        fix j q assume "j < k'"
        then have "Suc j < k" using k' by simp
        then have "\<not> completed board ((l # ls) ! Suc j) q" using k(3) by blast
        then show "\<not> completed board (ls ! j) q" by simp
      qed
      then show "\<exists>k < length ls. completed board (ls ! k) p \<and>
        (\<forall>j < k. \<forall>q. \<not> completed board (ls ! j) q)"
        using k k' by (intro exI[of _ k']) simp
    qed
    finally show ?thesis .
  qed
qed

lemma checkWinner_loop_none:
  assumes "\<forall>line \<in> set ls. in_board board line"
  shows "checkWinner_loop board ls = None \<longleftrightarrow>
     (\<forall>k < length ls. \<forall>q. \<not> completed board (ls ! k) q)"
  using assms
proof (induction ls)
  case Nil
  then show ?case by simp
next
  case (Cons l ls)
  then have l: "in_board board l" and ls: "\<forall>line \<in> set ls. in_board board line" by simp_all
  show ?case
    using Cons.IH[OF ls] line_winner_None[OF l]
    by (cases "line_winner board l") (auto simp: nth_Cons less_Suc_eq_0_disj split: nat.splits)
qed

lemma combinations_in_board:
  "length board = 9 \<Longrightarrow> \<forall>line \<in> set WINNING_COMBINATIONS. in_board board line"
  by (simp add: WINNING_COMBINATIONS_def in_board_def)

lemma length_combinations: "length WINNING_COMBINATIONS = 8"
  by (simp add: WINNING_COMBINATIONS_def)

section \<open>Scores on a board of nine cells\<close>

text \<open>
  On a board of nine cells a position that is not over has an empty cell among the
  nine the loops visit, so every score of the exhaustive search is an integer.
\<close>

lemma checkWinner_cases:
  "checkWinner b \<noteq> Some MarkO \<Longrightarrow> checkWinner b \<noteq> Some MarkX \<Longrightarrow> checkWinner b = None"
  by (cases "checkWinner b") (auto intro: player.exhaust)

lemma open_board_has_empty:
  assumes "length b = 9" "\<not> checkDraw b" "checkWinner b = None"
  shows "\<exists>j < 9. rd b j = Some None"
proof -
  have "\<not> list_all (\<lambda>cell. cell \<noteq> None) b" using assms(2,3) by (simp add: checkDraw_def)
  then obtain j where "j < length b" "b ! j = None" by (auto simp: list_all_length)
  then show ?thesis using assms(1) by (auto simp: rd_def)
qed

lemma max_Fin_cases: "s \<noteq> PInf \<Longrightarrow> \<exists>n. max (Fin k) s = Fin n"
  by (cases s) simp_all

lemma min_Fin_cases: "s \<noteq> MInf \<Longrightarrow> \<exists>n. min (Fin k) s = Fin n"
  by (cases s) simp_all

lemma mm_finite:
  "length b = 9 \<Longrightarrow> \<exists>n. mm b d m = Fin n"
  "length b' = 9 \<Longrightarrow> bs \<noteq> PInf \<Longrightarrow>
     bs \<noteq> MInf \<or> (\<exists>j. i \<le> j \<and> j < 9 \<and> rd b' j = Some None) \<Longrightarrow>
     \<exists>n. mm_max b' d' i bs = Fin n"
  "length b'' = 9 \<Longrightarrow> bs' \<noteq> MInf \<Longrightarrow>
     bs' \<noteq> PInf \<or> (\<exists>j. i' \<le> j \<and> j < 9 \<and> rd b'' j = Some None) \<Longrightarrow>
     \<exists>n. mm_min b'' d'' i' bs' = Fin n"
proof (induct b d m and b' d' i bs and b'' d'' i' bs' rule: mm_mm_max_mm_min.induct)
  case (1 board depth isMaximizing)
  show ?case
  proof (cases "checkWinner board = Some MarkO \<or> checkWinner board = Some MarkX \<or> checkDraw board")
    case True
    then show ?thesis by (subst mm.simps) auto
  next
    case False
    then have "checkWinner board = None" using checkWinner_cases by blast
    then have e: "\<exists>j. 0 \<le> j \<and> j < 9 \<and> rd board j = Some None"
      using open_board_has_empty[OF 1(3)] False by auto
    show ?thesis
    proof (cases isMaximizing)
      case True
      have "\<exists>n. mm_max board depth 0 MInf = Fin n"
        using 1(1) False True 1(3) e by simp
      moreover have "mm board depth isMaximizing = mm_max board depth 0 MInf"
        using False True by (subst mm.simps) simp
      ultimately show ?thesis by simp
    next
      case notmax: False
      have "\<exists>n. mm_min board depth 0 PInf = Fin n"
        using 1(2) False notmax 1(3) e by simp
      moreover have "mm board depth isMaximizing = mm_min board depth 0 PInf"
        using False notmax by (subst mm.simps) simp
      ultimately show ?thesis by simp
    qed
  qed
next
  case (2 board depth i bestScore)
  note len = 2(4) and notP = 2(5) and some = 2(6)
  show ?case
  proof (cases "i < 9")
    case False
    then have "mm_max board depth i bestScore = bestScore" by (subst mm_max.simps) simp
    moreover have "bestScore \<noteq> MInf" using some False by auto
    ultimately show ?thesis using notP by (cases bestScore) simp_all
  next
    case i: True
    show ?thesis
    proof (cases "rd board i = Some None")
      case False
      have "mm_max board depth i bestScore = mm_max board depth (i + 1) bestScore"
        using i False by (subst mm_max.simps) simp
      moreover have "bestScore \<noteq> MInf \<or> (\<exists>j. i + 1 \<le> j \<and> j < 9 \<and> rd board j = Some None)"
        using some False by (metis Suc_eq_plus1 Suc_leI le_neq_implies_less)
      ultimately show ?thesis using 2(3)[OF i False len notP] by simp
    next
      case True
      obtain k where k: "mm (board[i := Some MarkO]) (depth + 1) False = Fin k"
        using 2(1)[OF i True] len by auto
      obtain n where n: "max (Fin k) bestScore = Fin n" using max_Fin_cases[OF notP] by blast
      have "mm_max board depth i bestScore = mm_max board depth (i + 1) (Fin n)"
        using i True by (subst mm_max.simps) (simp add: k n)
      moreover have "\<exists>n'. mm_max board depth (i + 1) (Fin n) = Fin n'"
        using 2(2)[OF i True k[symmetric] len] n by simp
      ultimately show ?thesis by simp
    qed
  qed
next
  case (3 board depth i bestScore)
  note len = 3(4) and notM = 3(5) and some = 3(6)
  show ?case
  proof (cases "i < 9")
    case False
    then have "mm_min board depth i bestScore = bestScore" by (subst mm_min.simps) simp
    moreover have "bestScore \<noteq> PInf" using some False by auto
    ultimately show ?thesis using notM by (cases bestScore) simp_all
  next
    case i: True
    show ?thesis
    proof (cases "rd board i = Some None")
      case False
      have "mm_min board depth i bestScore = mm_min board depth (i + 1) bestScore"
        using i False by (subst mm_min.simps) simp
      moreover have "bestScore \<noteq> PInf \<or> (\<exists>j. i + 1 \<le> j \<and> j < 9 \<and> rd board j = Some None)"
        using some False by (metis Suc_eq_plus1 Suc_leI le_neq_implies_less)
      ultimately show ?thesis using 3(3)[OF i False len notM] by simp
    next
      case True
      obtain k where k: "mm (board[i := Some MarkX]) (depth + 1) True = Fin k"
        using 3(1)[OF i True] len by auto
      obtain n where n: "min (Fin k) bestScore = Fin n" using min_Fin_cases[OF notM] by blast
      have "mm_min board depth i bestScore = mm_min board depth (i + 1) (Fin n)"
        using i True by (subst mm_min.simps) (simp add: k n)
      moreover have "\<exists>n'. mm_min board depth (i + 1) (Fin n) = Fin n'"
        using 3(2)[OF i True k[symmetric] len] n by simp
      ultimately show ?thesis by simp
    qed
  qed
qed

text \<open>
  On a board of nine cells with an empty cell, the Hard search returns an empty cell,
  and so does the random branch for draws that are doubles in \<open>[0, 1)\<close>.
\<close>

lemma best_full_valid:
  assumes "length b = 9" "\<exists>j < 9. rd b j = Some None"
  shows "\<exists>j < 9. rd b j = Some None \<and> best_full b 0 (- 1) MInf = int j \<and>
           (\<forall>k. k < 9 \<and> rd b k = Some None \<longrightarrow>
              mm (b[k := Some MarkO]) 0 False \<le> mm (b[j := Some MarkO]) 0 False)"
proof -
  obtain j where j: "j < 9" "rd b j = Some None" using assms(2) by blast
  obtain n where "mm (b[j := Some MarkO]) 0 False = Fin n"
    using mm_finite(1)[of "b[j := Some MarkO]" 0 False] assms(1) by auto
  then have "\<not> mm (b[j := Some MarkO]) 0 False \<le> MInf" by simp
  then have "\<not> (\<forall>j. 0 \<le> j \<and> j < 9 \<and> rd b j = Some None \<longrightarrow>
      mm (b[j := Some MarkO]) 0 False \<le> MInf)"
    using j by blast
  then show ?thesis
    using best_full_spec[of b 0 "- 1" MInf] by auto
qed

lemma getBestMove_valid:
  assumes "length b = 9" "\<exists>j < 9. rd b j = Some None"
    and "\<forall>n. is_double (g n) \<and> 0 \<le> dval (g n) \<and> dval (g n) < 1"
  shows "valid_move b (fst (getBestMove b diff g))"
proof -
  have "availableMoves b \<noteq> []"
  proof -
    have "set (availableMoves b) \<noteq> {}"
      using assms(2) by (auto simp: set_availableMoves rd_None_iff)
    then show ?thesis by auto
  qed
  then have rnd: "valid_move b (pick (availableMoves b) (g n))" for n
    using pick_available[of "g n" b] assms(1,3)
    by (auto simp: valid_move_def rd_None_iff)
  have "valid_move b (Num (best_full b 0 (- 1) MInf))"
    using best_full_valid[OF assms(1,2)] by (auto simp: valid_move_def)
  then show ?thesis
    using getBestMove_cases[of b diff g] rnd by auto
qed

section \<open>Safe positions and scores\<close>

lemma nempty_le: "nempty b \<le> 9"
  unfolding nempty_def using length_filter_le[of "\<lambda>j. rd b j = Some None" "[0..<9]"] by simp

text \<open>
  While the depth plus the number of empty cells is at most 9, a win of \<open>MarkO\<close>
  scores above 0 and a win of \<open>MarkX\<close> below 0, and the exhaustive score is at least
  0 exactly in the positions that are safe for \<open>MarkO\<close>.
\<close>

lemma mm_safe:
  "0 \<le> d \<Longrightarrow> d + int (nempty b) \<le> 9 \<Longrightarrow> (Fin 0 \<le> mm b d m) = safe b m"
  "0 \<le> d' \<Longrightarrow> d' + int (nempty b') \<le> 9 \<Longrightarrow>
     (Fin 0 \<le> mm_max b' d' i bs) = (Fin 0 \<le> bs \<or> safe_some b' i)"
  "0 \<le> d'' \<Longrightarrow> d'' + int (nempty b'') \<le> 9 \<Longrightarrow>
     (Fin 0 \<le> mm_min b'' d'' i' bs') = (Fin 0 \<le> bs' \<and> safe_all b'' i')"
proof (induct b d m and b' d' i bs and b'' d'' i' bs' rule: mm_mm_max_mm_min.induct)
  case (1 board depth isMaximizing)
  note d = 1(3,4)
  have d9: "depth \<le> 9" using d by linarith
  consider (o) "checkWinner board = Some MarkO"
    | (x) "checkWinner board \<noteq> Some MarkO" "checkWinner board = Some MarkX"
    | (draw) "checkWinner board \<noteq> Some MarkO" "checkWinner board \<noteq> Some MarkX" "checkDraw board"
    | (go) "checkWinner board \<noteq> Some MarkO" "checkWinner board \<noteq> Some MarkX" "\<not> checkDraw board"
    by blast
  then show ?case
  proof cases
    case o
    then show ?thesis using d9 by (subst mm.simps, subst safe.simps) simp
  next
    case x
    then show ?thesis using d9 by (subst mm.simps, subst safe.simps) simp
  next
    case draw
    then show ?thesis by (subst mm.simps, subst safe.simps) simp
  next
    case go
    show ?thesis
    proof (cases isMaximizing)
      case True
      have "(Fin 0 \<le> mm_max board depth 0 MInf) = (Fin 0 \<le> MInf \<or> safe_some board 0)"
        using 1(1) go True d by simp
      moreover have "mm board depth isMaximizing = mm_max board depth 0 MInf"
        using go True by (subst mm.simps) simp
      moreover have "safe board isMaximizing = safe_some board 0"
        using go True by (subst safe.simps) simp
      ultimately show ?thesis by simp
    next
      case False
      have "(Fin 0 \<le> mm_min board depth 0 PInf) = (Fin 0 \<le> PInf \<and> safe_all board 0)"
        using 1(2) go False d by simp
      moreover have "mm board depth isMaximizing = mm_min board depth 0 PInf"
        using go False by (subst mm.simps) simp
      moreover have "safe board isMaximizing = safe_all board 0"
        using go False by (subst safe.simps) simp
      ultimately show ?thesis by simp
    qed
  qed
next
  case (2 board depth i bestScore)
  note d = 2(4,5)
  show ?case
  proof (cases "i < 9")
    case False
    then show ?thesis by (subst mm_max.simps, subst safe_some.simps) simp
  next
    case i: True
    show ?thesis
    proof (cases "rd board i = Some None")
      case False
      then show ?thesis
        using i 2(3)[OF i False d]
        by (subst mm_max.simps, subst safe_some.simps) simp
    next
      case True
      define s where "s = mm (board[i := Some MarkO]) (depth + 1) False"
      have less: "nempty (board[i := Some MarkO]) < nempty board"
        using nempty_place[OF i True] .
      have child: "(Fin 0 \<le> s) = safe (board[i := Some MarkO]) False"
        unfolding s_def using 2(1)[OF i True] d less by simp
      have rest: "(Fin 0 \<le> mm_max board depth (i + 1) (max s bestScore)) =
          (Fin 0 \<le> max s bestScore \<or> safe_some board (i + 1))"
        using 2(2)[OF i True s_def d] .
      have l: "mm_max board depth i bestScore = mm_max board depth (i + 1) (max s bestScore)"
        using i True by (subst mm_max.simps) (simp add: s_def)
      have r: "safe_some board i =
          (if safe (board[i := Some MarkO]) False then True else safe_some board (i + 1))"
        using i True by (subst safe_some.simps) simp
      show ?thesis
        unfolding l r rest using child by (auto simp: le_max_iff_disj)
    qed
  qed
next
  case (3 board depth i bestScore)
  note d = 3(4,5)
  show ?case
  proof (cases "i < 9")
    case False
    then show ?thesis by (subst mm_min.simps, subst safe_all.simps) simp
  next
    case i: True
    show ?thesis
    proof (cases "rd board i = Some None")
      case False
      then show ?thesis
        using i 3(3)[OF i False d]
        by (subst mm_min.simps, subst safe_all.simps) simp
    next
      case True
      define s where "s = mm (board[i := Some MarkX]) (depth + 1) True"
      have less: "nempty (board[i := Some MarkX]) < nempty board"
        using nempty_place[OF i True] .
      have child: "(Fin 0 \<le> s) = safe (board[i := Some MarkX]) True"
        unfolding s_def using 3(1)[OF i True] d less by simp
      have rest: "(Fin 0 \<le> mm_min board depth (i + 1) (min s bestScore)) =
          (Fin 0 \<le> min s bestScore \<and> safe_all board (i + 1))"
        using 3(2)[OF i True s_def d] .
      have l: "mm_min board depth i bestScore = mm_min board depth (i + 1) (min s bestScore)"
        using i True by (subst mm_min.simps) (simp add: s_def)
      have r: "safe_all board i =
          (if safe (board[i := Some MarkX]) True then safe_all board (i + 1) else False)"
        using i True by (subst safe_all.simps) simp
      show ?thesis
        unfolding l r rest using child by (auto simp: min_le_iff_disj)
    qed
  qed
qed

lemma safe_all_elim:
  "safe_all b i \<Longrightarrow> i \<le> j \<Longrightarrow> j < 9 \<Longrightarrow> rd b j = Some None \<Longrightarrow>
     safe (b[j := Some MarkX]) True"
proof (induction "j - i" arbitrary: i)
  case 0
  then have "i = j" by simp
  then show ?case
    using 0 safe_all.simps[of b j] by (simp split: if_splits)
next
  case (Suc n)
  then have "i < 9" "n = j - (i + 1)" "i + 1 \<le> j" by simp_all
  moreover have "safe_all b (i + 1)"
    using Suc(3) \<open>i < 9\<close> safe_all.simps[of b i] by (simp split: if_splits)
  ultimately show ?case using Suc by blast
qed

lemma safe_some_elim:
  "safe_some b i \<Longrightarrow> \<exists>j. i \<le> j \<and> j < 9 \<and> rd b j = Some None \<and> safe (b[j := Some MarkO]) False"
proof (induction "9 - i" arbitrary: i)
  case 0
  then show ?case using safe_some.simps[of b i] by simp
next
  case (Suc n)
  then have i: "i < 9" and n: "n = 9 - (i + 1)" by simp_all
  show ?case
  proof (cases "rd b i = Some None \<and> safe (b[i := Some MarkO]) False")
    case True
    then show ?thesis using i by (intro exI[of _ i]) simp
  next
    case False
    then have "safe_some b (i + 1)"
      using Suc(3) i safe_some.simps[of b i] by (auto split: if_splits)
    then obtain j where "i + 1 \<le> j" "j < 9" "rd b j = Some None" "safe (b[j := Some MarkO]) False"
      using Suc(1)[OF n] by blast
    then show ?thesis by (intro exI[of _ j]) simp
  qed
qed

lemma safe_not_lost: "safe b m \<Longrightarrow> checkWinner b \<noteq> Some MarkX"
  using safe.simps[of b m] by (auto split: if_splits)

lemma safe_open:
  assumes "safe b m" "evaluate b = InProgress"
  shows "if m then safe_some b 0 else safe_all b 0"
proof -
  have "checkWinner b = None" "\<not> checkDraw b"
    using assms(2) by (auto simp: evaluate_def split: option.splits if_splits)
  then show ?thesis using assms(1) safe.simps[of b m] by simp
qed

section \<open>The empty board is safe\<close>

text \<open>
  The functions of the source on a board written out as nine cells, so that the
  simplifier evaluates a position in a few steps.
\<close>

lemma rd9:
  "rd [c0, c1, c2, c3, c4, c5, c6, c7, c8] 0 = Some c0"
  "rd [c0, c1, c2, c3, c4, c5, c6, c7, c8] 1 = Some c1"
  "rd [c0, c1, c2, c3, c4, c5, c6, c7, c8] 2 = Some c2"
  "rd [c0, c1, c2, c3, c4, c5, c6, c7, c8] 3 = Some c3"
  "rd [c0, c1, c2, c3, c4, c5, c6, c7, c8] 4 = Some c4"
  "rd [c0, c1, c2, c3, c4, c5, c6, c7, c8] 5 = Some c5"
  "rd [c0, c1, c2, c3, c4, c5, c6, c7, c8] 6 = Some c6"
  "rd [c0, c1, c2, c3, c4, c5, c6, c7, c8] 7 = Some c7"
  "rd [c0, c1, c2, c3, c4, c5, c6, c7, c8] 8 = Some c8"
  by (simp_all add: rd_def)

lemma update9:
  "[c0, c1, c2, c3, c4, c5, c6, c7, c8][0 := v] = [v, c1, c2, c3, c4, c5, c6, c7, c8]"
  "[c0, c1, c2, c3, c4, c5, c6, c7, c8][1 := v] = [c0, v, c2, c3, c4, c5, c6, c7, c8]"
  "[c0, c1, c2, c3, c4, c5, c6, c7, c8][2 := v] = [c0, c1, v, c3, c4, c5, c6, c7, c8]"
  "[c0, c1, c2, c3, c4, c5, c6, c7, c8][3 := v] = [c0, c1, c2, v, c4, c5, c6, c7, c8]"
  "[c0, c1, c2, c3, c4, c5, c6, c7, c8][4 := v] = [c0, c1, c2, c3, v, c5, c6, c7, c8]"
  "[c0, c1, c2, c3, c4, c5, c6, c7, c8][5 := v] = [c0, c1, c2, c3, c4, v, c6, c7, c8]"
  "[c0, c1, c2, c3, c4, c5, c6, c7, c8][6 := v] = [c0, c1, c2, c3, c4, c5, v, c7, c8]"
  "[c0, c1, c2, c3, c4, c5, c6, c7, c8][7 := v] = [c0, c1, c2, c3, c4, c5, c6, v, c8]"
  "[c0, c1, c2, c3, c4, c5, c6, c7, c8][8 := v] = [c0, c1, c2, c3, c4, c5, c6, c7, v]"
  by simp_all

lemma line_winner_cells:
  "a < length board \<Longrightarrow> b < length board \<Longrightarrow> c < length board \<Longrightarrow>
   line_winner board (a, b, c) =
     (if board ! a \<noteq> None \<and> board ! a = board ! b \<and> board ! a = board ! c then board ! a else None)"
  by (auto simp: rd_def split: option.splits)

lemma checkWinner_loop_step:
  "a < length board \<Longrightarrow> b < length board \<Longrightarrow> c < length board \<Longrightarrow>
   checkWinner_loop board ((a, b, c) # rest) =
     (if board ! a \<noteq> None \<and> board ! a = board ! b \<and> board ! a = board ! c then board ! a
      else checkWinner_loop board rest)"
  by (auto simp: line_winner_cells simp del: line_winner.simps)

lemma checkWinner9:
  "checkWinner [c0, c1, c2, c3, c4, c5, c6, c7, c8] =
     (if c0 \<noteq> None \<and> c0 = c1 \<and> c0 = c2 then c0
      else if c3 \<noteq> None \<and> c3 = c4 \<and> c3 = c5 then c3
      else if c6 \<noteq> None \<and> c6 = c7 \<and> c6 = c8 then c6
      else if c0 \<noteq> None \<and> c0 = c3 \<and> c0 = c6 then c0
      else if c1 \<noteq> None \<and> c1 = c4 \<and> c1 = c7 then c1
      else if c2 \<noteq> None \<and> c2 = c5 \<and> c2 = c8 then c2
      else if c0 \<noteq> None \<and> c0 = c4 \<and> c0 = c8 then c0
      else if c2 \<noteq> None \<and> c2 = c4 \<and> c2 = c6 then c2
      else None)"
  unfolding checkWinner_def WINNING_COMBINATIONS_def
  apply (simp add: checkWinner_loop_step del: checkWinner_loop.simps(2) line_winner.simps if_cancel cong: if_cong)
  done

lemma checkDraw9:
  "checkDraw [c0, c1, c2, c3, c4, c5, c6, c7, c8] =
     (c0 \<noteq> None \<and> c1 \<noteq> None \<and> c2 \<noteq> None \<and> c3 \<noteq> None \<and> c4 \<noteq> None \<and> c5 \<noteq> None \<and>
      c6 \<noteq> None \<and> c7 \<noteq> None \<and> c8 \<noteq> None \<and>
      checkWinner [c0, c1, c2, c3, c4, c5, c6, c7, c8] = None)"
  by (simp add: checkDraw_def)

lemma safe_all_steps:
  "safe_all b 0 =
     (if rd b 0 = Some None
      then (if safe (b[0 := Some MarkX]) True then safe_all b 1 else False)
      else safe_all b 1)"
  "safe_all b 1 =
     (if rd b 1 = Some None
      then (if safe (b[1 := Some MarkX]) True then safe_all b 2 else False)
      else safe_all b 2)"
  "safe_all b 2 =
     (if rd b 2 = Some None
      then (if safe (b[2 := Some MarkX]) True then safe_all b 3 else False)
      else safe_all b 3)"
  "safe_all b 3 =
     (if rd b 3 = Some None
      then (if safe (b[3 := Some MarkX]) True then safe_all b 4 else False)
      else safe_all b 4)"
  "safe_all b 4 =
     (if rd b 4 = Some None
      then (if safe (b[4 := Some MarkX]) True then safe_all b 5 else False)
      else safe_all b 5)"
  "safe_all b 5 =
     (if rd b 5 = Some None
      then (if safe (b[5 := Some MarkX]) True then safe_all b 6 else False)
      else safe_all b 6)"
  "safe_all b 6 =
     (if rd b 6 = Some None
      then (if safe (b[6 := Some MarkX]) True then safe_all b 7 else False)
      else safe_all b 7)"
  "safe_all b 7 =
     (if rd b 7 = Some None
      then (if safe (b[7 := Some MarkX]) True then safe_all b 8 else False)
      else safe_all b 8)"
  "safe_all b 8 =
     (if rd b 8 = Some None
      then (if safe (b[8 := Some MarkX]) True then safe_all b 9 else False)
      else safe_all b 9)"
  "safe_all b 9 = True"
  by (rule trans[OF safe_all.simps], simp del: One_nat_def cong: if_cong)+

lemma safe_some_steps:
  "safe_some b 0 =
     (if rd b 0 = Some None
      then (if safe (b[0 := Some MarkO]) False then True else safe_some b 1)
      else safe_some b 1)"
  "safe_some b 1 =
     (if rd b 1 = Some None
      then (if safe (b[1 := Some MarkO]) False then True else safe_some b 2)
      else safe_some b 2)"
  "safe_some b 2 =
     (if rd b 2 = Some None
      then (if safe (b[2 := Some MarkO]) False then True else safe_some b 3)
      else safe_some b 3)"
  "safe_some b 3 =
     (if rd b 3 = Some None
      then (if safe (b[3 := Some MarkO]) False then True else safe_some b 4)
      else safe_some b 4)"
  "safe_some b 4 =
     (if rd b 4 = Some None
      then (if safe (b[4 := Some MarkO]) False then True else safe_some b 5)
      else safe_some b 5)"
  "safe_some b 5 =
     (if rd b 5 = Some None
      then (if safe (b[5 := Some MarkO]) False then True else safe_some b 6)
      else safe_some b 6)"
  "safe_some b 6 =
     (if rd b 6 = Some None
      then (if safe (b[6 := Some MarkO]) False then True else safe_some b 7)
      else safe_some b 7)"
  "safe_some b 7 =
     (if rd b 7 = Some None
      then (if safe (b[7 := Some MarkO]) False then True else safe_some b 8)
      else safe_some b 8)"
  "safe_some b 8 =
     (if rd b 8 = Some None
      then (if safe (b[8 := Some MarkO]) False then True else safe_some b 9)
      else safe_some b 9)"
  "safe_some b 9 = False"
  by (rule trans[OF safe_some.simps], simp del: One_nat_def cong: if_cong)+

lemma safe_start: "safe (replicate 9 None) False"
proof -
  have "replicate 9 None = [None, None, None, None, None, None, None, None, None :: cell]"
    by (simp add: numeral_eq_Suc)
  moreover have "safe [None, None, None, None, None, None, None, None, None] False"
  by (simp only: safe.simps safe_some_steps safe_all_steps rd9 update9 checkWinner9 checkDraw9
      if_True if_False simp_thms option.distinct option.inject player.distinct
      cong: if_weak_cong)
  ultimately show ?thesis by simp
qed

section \<open>The Hard player keeps the position safe\<close>

text \<open>
  In a safe position with \<open>MarkO\<close> to move some empty cell leads to a safe position,
  so its score is at least 0; the cell Hard \<open>getBestMove\<close> returns has the greatest
  score, at least 0 as well, and so leads to a safe position. Every board of the game
  is therefore safe.
\<close>

lemma hard_keeps_safe:
  assumes len: "length b = 9" and s: "safe b True" and prog: "evaluate b = InProgress"
    and mv: "fst (getBestMove b Hard g) = Num (int i)"
  shows "i < 9 \<and> rd b i = Some None \<and> safe (b[i := Some MarkO]) False"
proof -
  have "safe_some b 0" using safe_open[OF s prog] by simp
  then obtain j where j: "j < 9" "rd b j = Some None" "safe (b[j := Some MarkO]) False"
    using safe_some_elim by blast
  have depth: "(0::int) + int (nempty c) \<le> 9" for c using nempty_le[of c] by simp
  have low: "Fin 0 \<le> mm (b[j := Some MarkO]) 0 False"
    using mm_safe(1)[OF _ depth, of "b[j := Some MarkO]" False] j(3) by simp
  obtain k where k: "k < 9" "rd b k = Some None" "best_full b 0 (- 1) MInf = int k"
    "\<forall>c. c < 9 \<and> rd b c = Some None \<longrightarrow>
       mm (b[c := Some MarkO]) 0 False \<le> mm (b[k := Some MarkO]) 0 False"
    using best_full_valid[OF len] j(1,2) by blast
  have "i = k" using mv k(3) by (simp add: getBestMove_Hard)
  moreover have "Fin 0 \<le> mm (b[k := Some MarkO]) 0 False"
    using low k(4) j(1,2) by (meson order_trans)
  then have "safe (b[k := Some MarkO]) False"
    using mm_safe(1)[OF _ depth, of "b[k := Some MarkO]" False] by simp
  ultimately show ?thesis using k by simp
qed

lemma reachable_safe:
  "reachable p b \<Longrightarrow> length b = 9 \<and> safe b (p = MarkO)"
proof (induction rule: reachable.induct)
  case start
  then show ?case using safe_start by simp
next
  case (human board i)
  then have "safe_all board 0" using safe_open[of board False] by simp
  moreover have "rd board i = Some None" using human by (simp add: rd_None_iff)
  ultimately have "safe (board[i := Some MarkX]) True"
    using safe_all_elim[of board 0 i] human by simp
  then show ?case using human by simp
next
  case (machine board g i)
  then show ?case using hard_keeps_safe[of board g i] by simp
qed

section \<open>A game played out\<close>

text \<open>
  One step of each loop of the search at each of the nine indices, for the evaluation
  of \<open>getBestMove\<close> on a concrete board.
\<close>

lemma ab_max_steps:
  "ab_max b d 0 bestScore alpha beta =
     (if rd b 0 = Some None then
        (let score = ab (b[0 := Some MarkO]) (d + 1) False alpha beta
         in if beta \<le> max alpha score then max score bestScore
            else ab_max b d 1 (max score bestScore) (max alpha score) beta)
      else ab_max b d 1 bestScore alpha beta)"
  "ab_max b d 1 bestScore alpha beta =
     (if rd b 1 = Some None then
        (let score = ab (b[1 := Some MarkO]) (d + 1) False alpha beta
         in if beta \<le> max alpha score then max score bestScore
            else ab_max b d 2 (max score bestScore) (max alpha score) beta)
      else ab_max b d 2 bestScore alpha beta)"
  "ab_max b d 2 bestScore alpha beta =
     (if rd b 2 = Some None then
        (let score = ab (b[2 := Some MarkO]) (d + 1) False alpha beta
         in if beta \<le> max alpha score then max score bestScore
            else ab_max b d 3 (max score bestScore) (max alpha score) beta)
      else ab_max b d 3 bestScore alpha beta)"
  "ab_max b d 3 bestScore alpha beta =
     (if rd b 3 = Some None then
        (let score = ab (b[3 := Some MarkO]) (d + 1) False alpha beta
         in if beta \<le> max alpha score then max score bestScore
            else ab_max b d 4 (max score bestScore) (max alpha score) beta)
      else ab_max b d 4 bestScore alpha beta)"
  "ab_max b d 4 bestScore alpha beta =
     (if rd b 4 = Some None then
        (let score = ab (b[4 := Some MarkO]) (d + 1) False alpha beta
         in if beta \<le> max alpha score then max score bestScore
            else ab_max b d 5 (max score bestScore) (max alpha score) beta)
      else ab_max b d 5 bestScore alpha beta)"
  "ab_max b d 5 bestScore alpha beta =
     (if rd b 5 = Some None then
        (let score = ab (b[5 := Some MarkO]) (d + 1) False alpha beta
         in if beta \<le> max alpha score then max score bestScore
            else ab_max b d 6 (max score bestScore) (max alpha score) beta)
      else ab_max b d 6 bestScore alpha beta)"
  "ab_max b d 6 bestScore alpha beta =
     (if rd b 6 = Some None then
        (let score = ab (b[6 := Some MarkO]) (d + 1) False alpha beta
         in if beta \<le> max alpha score then max score bestScore
            else ab_max b d 7 (max score bestScore) (max alpha score) beta)
      else ab_max b d 7 bestScore alpha beta)"
  "ab_max b d 7 bestScore alpha beta =
     (if rd b 7 = Some None then
        (let score = ab (b[7 := Some MarkO]) (d + 1) False alpha beta
         in if beta \<le> max alpha score then max score bestScore
            else ab_max b d 8 (max score bestScore) (max alpha score) beta)
      else ab_max b d 8 bestScore alpha beta)"
  "ab_max b d 8 bestScore alpha beta =
     (if rd b 8 = Some None then
        (let score = ab (b[8 := Some MarkO]) (d + 1) False alpha beta
         in if beta \<le> max alpha score then max score bestScore
            else ab_max b d 9 (max score bestScore) (max alpha score) beta)
      else ab_max b d 9 bestScore alpha beta)"
  "ab_max b d 9 bestScore alpha beta = bestScore"
  by (rule trans[OF ab_max.simps], simp del: One_nat_def cong: if_cong)+

lemma ab_min_steps:
  "ab_min b d 0 bestScore alpha beta =
     (if rd b 0 = Some None then
        (let score = ab (b[0 := Some MarkX]) (d + 1) True alpha beta
         in if min beta score \<le> alpha then min score bestScore
            else ab_min b d 1 (min score bestScore) alpha (min beta score))
      else ab_min b d 1 bestScore alpha beta)"
  "ab_min b d 1 bestScore alpha beta =
     (if rd b 1 = Some None then
        (let score = ab (b[1 := Some MarkX]) (d + 1) True alpha beta
         in if min beta score \<le> alpha then min score bestScore
            else ab_min b d 2 (min score bestScore) alpha (min beta score))
      else ab_min b d 2 bestScore alpha beta)"
  "ab_min b d 2 bestScore alpha beta =
     (if rd b 2 = Some None then
        (let score = ab (b[2 := Some MarkX]) (d + 1) True alpha beta
         in if min beta score \<le> alpha then min score bestScore
            else ab_min b d 3 (min score bestScore) alpha (min beta score))
      else ab_min b d 3 bestScore alpha beta)"
  "ab_min b d 3 bestScore alpha beta =
     (if rd b 3 = Some None then
        (let score = ab (b[3 := Some MarkX]) (d + 1) True alpha beta
         in if min beta score \<le> alpha then min score bestScore
            else ab_min b d 4 (min score bestScore) alpha (min beta score))
      else ab_min b d 4 bestScore alpha beta)"
  "ab_min b d 4 bestScore alpha beta =
     (if rd b 4 = Some None then
        (let score = ab (b[4 := Some MarkX]) (d + 1) True alpha beta
         in if min beta score \<le> alpha then min score bestScore
            else ab_min b d 5 (min score bestScore) alpha (min beta score))
      else ab_min b d 5 bestScore alpha beta)"
  "ab_min b d 5 bestScore alpha beta =
     (if rd b 5 = Some None then
        (let score = ab (b[5 := Some MarkX]) (d + 1) True alpha beta
         in if min beta score \<le> alpha then min score bestScore
            else ab_min b d 6 (min score bestScore) alpha (min beta score))
      else ab_min b d 6 bestScore alpha beta)"
  "ab_min b d 6 bestScore alpha beta =
     (if rd b 6 = Some None then
        (let score = ab (b[6 := Some MarkX]) (d + 1) True alpha beta
         in if min beta score \<le> alpha then min score bestScore
            else ab_min b d 7 (min score bestScore) alpha (min beta score))
      else ab_min b d 7 bestScore alpha beta)"
  "ab_min b d 7 bestScore alpha beta =
     (if rd b 7 = Some None then
        (let score = ab (b[7 := Some MarkX]) (d + 1) True alpha beta
         in if min beta score \<le> alpha then min score bestScore
            else ab_min b d 8 (min score bestScore) alpha (min beta score))
      else ab_min b d 8 bestScore alpha beta)"
  "ab_min b d 8 bestScore alpha beta =
     (if rd b 8 = Some None then
        (let score = ab (b[8 := Some MarkX]) (d + 1) True alpha beta
         in if min beta score \<le> alpha then min score bestScore
            else ab_min b d 9 (min score bestScore) alpha (min beta score))
      else ab_min b d 9 bestScore alpha beta)"
  "ab_min b d 9 bestScore alpha beta = bestScore"
  by (rule trans[OF ab_min.simps], simp del: One_nat_def cong: if_cong)+

lemma best_full_steps:
  "best_full b 0 bestMove bestScore =
     (if rd b 0 = Some None then
        (let score = ab (b[0 := Some MarkO]) 0 False MInf PInf
         in if bestScore < score then best_full b 1 0 score
            else best_full b 1 bestMove bestScore)
      else best_full b 1 bestMove bestScore)"
  "best_full b 1 bestMove bestScore =
     (if rd b 1 = Some None then
        (let score = ab (b[1 := Some MarkO]) 0 False MInf PInf
         in if bestScore < score then best_full b 2 1 score
            else best_full b 2 bestMove bestScore)
      else best_full b 2 bestMove bestScore)"
  "best_full b 2 bestMove bestScore =
     (if rd b 2 = Some None then
        (let score = ab (b[2 := Some MarkO]) 0 False MInf PInf
         in if bestScore < score then best_full b 3 2 score
            else best_full b 3 bestMove bestScore)
      else best_full b 3 bestMove bestScore)"
  "best_full b 3 bestMove bestScore =
     (if rd b 3 = Some None then
        (let score = ab (b[3 := Some MarkO]) 0 False MInf PInf
         in if bestScore < score then best_full b 4 3 score
            else best_full b 4 bestMove bestScore)
      else best_full b 4 bestMove bestScore)"
  "best_full b 4 bestMove bestScore =
     (if rd b 4 = Some None then
        (let score = ab (b[4 := Some MarkO]) 0 False MInf PInf
         in if bestScore < score then best_full b 5 4 score
            else best_full b 5 bestMove bestScore)
      else best_full b 5 bestMove bestScore)"
  "best_full b 5 bestMove bestScore =
     (if rd b 5 = Some None then
        (let score = ab (b[5 := Some MarkO]) 0 False MInf PInf
         in if bestScore < score then best_full b 6 5 score
            else best_full b 6 bestMove bestScore)
      else best_full b 6 bestMove bestScore)"
  "best_full b 6 bestMove bestScore =
     (if rd b 6 = Some None then
        (let score = ab (b[6 := Some MarkO]) 0 False MInf PInf
         in if bestScore < score then best_full b 7 6 score
            else best_full b 7 bestMove bestScore)
      else best_full b 7 bestMove bestScore)"
  "best_full b 7 bestMove bestScore =
     (if rd b 7 = Some None then
        (let score = ab (b[7 := Some MarkO]) 0 False MInf PInf
         in if bestScore < score then best_full b 8 7 score
            else best_full b 8 bestMove bestScore)
      else best_full b 8 bestMove bestScore)"
  "best_full b 8 bestMove bestScore =
     (if rd b 8 = Some None then
        (let score = ab (b[8 := Some MarkO]) 0 False MInf PInf
         in if bestScore < score then best_full b 9 8 score
            else best_full b 9 bestMove bestScore)
      else best_full b 9 bestMove bestScore)"
  "best_full b 9 bestMove bestScore = bestMove"
  by (rule trans[OF best_full.simps], simp del: One_nat_def add: ab_full_window cong: if_cong)+

lemma Let_score: "Let (Fin n) f = f (Fin n)"
  by simp

lemmas board_eval =
  best_full_steps ab.simps ab_max_steps ab_min_steps rd9 update9 checkWinner9 checkDraw9
  Let_score if_True if_False simp_thms option.distinct option.inject player.distinct
  score.distinct score.inject less_eq_score.simps score_less_simps score_le_simps
  score_max_min_simps max_def min_def arith_simps arith_special rel_simps

lemma game_replies:
  "best_full game_1 0 (- 1) MInf = 4"
  "best_full game_3 0 (- 1) MInf = 2"
  "best_full game_5 0 (- 1) MInf = 6"
  unfolding game_1_def game_3_def game_5_def
  by (simp_all only: board_eval cong: if_weak_cong let_weak_cong)

lemma game_in_progress:
  "evaluate (replicate 9 None) = InProgress"
  "evaluate game_1 = InProgress" "evaluate game_2 = InProgress" "evaluate game_3 = InProgress"
  "evaluate game_4 = InProgress" "evaluate game_5 = InProgress"
  by (simp_all add: evaluate_def checkWinner9 checkDraw9 numeral_eq_Suc
      game_1_def game_2_def game_3_def game_4_def game_5_def)

lemma game_reachable: "reachable MarkX game_6"
proof -
  have b1: "reachable MarkO game_1"
    using human[OF start game_in_progress(1), of 0] by (simp add: game_1_def numeral_eq_Suc)
  have "fst (getBestMove game_1 Hard rng_half) = Num (int 4)"
    by (simp add: getBestMove_Hard game_replies)
  then have b2: "reachable MarkX game_2"
    using machine[OF b1 game_in_progress(2), of rng_half 4]
    by (simp add: game_1_def game_2_def)
  have b3: "reachable MarkO game_3"
    using human[OF b2 game_in_progress(3), of 1] by (simp add: game_2_def game_3_def)
  have "fst (getBestMove game_3 Hard rng_half) = Num (int 2)"
    by (simp add: getBestMove_Hard game_replies)
  then have b4: "reachable MarkX game_4"
    using machine[OF b3 game_in_progress(4), of rng_half 2]
    by (simp add: game_3_def game_4_def)
  have b5: "reachable MarkO game_5"
    using human[OF b4 game_in_progress(5), of 3] by (simp add: game_4_def game_5_def)
  have "fst (getBestMove game_5 Hard rng_half) = Num (int 6)"
    by (simp add: getBestMove_Hard game_replies)
  then show ?thesis
    using machine[OF b5 game_in_progress(6), of rng_half 6]
    by (simp add: game_5_def game_6_def)
qed

lemma game_won: "evaluate game_6 = Win MarkO"
  by (simp add: evaluate_def checkWinner9 game_6_def)

section \<open>Claims\<close>

text \<open>
  C1. Hard difficulty is lossless. In the game that starts from the empty board with
  \<open>MarkX\<close> moving first, where \<open>MarkX\<close> plays any empty cell and \<open>MarkO\<close> always
  plays the cell Hard \<open>getBestMove\<close> returns, no board that is reached has the
  outcome \<open>Win MarkX\<close>: every board at which the game is over is \<open>Win MarkO\<close> or
  \<open>Draw\<close>. The game does not stop short of that: whenever \<open>MarkO\<close> is to move and
  the game is in progress, \<open>getBestMove\<close> returns an empty cell.
\<close>

theorem hard_never_loses:
  assumes "reachable p board"
  shows "evaluate board \<noteq> Win MarkX \<and>
         (evaluate board \<noteq> InProgress \<longrightarrow> evaluate board = Win MarkO \<or> evaluate board = Draw) \<and>
         (p = MarkO \<and> evaluate board = InProgress \<longrightarrow>
            (\<exists>i < 9. board ! i = None \<and> fst (getBestMove board Hard g) = Num (int i)))"
proof -
  have len: "length board = 9" and s: "safe board (p = MarkO)"
    using reachable_safe[OF assms] by simp_all
  have "checkWinner board \<noteq> Some MarkX" using safe_not_lost[OF s] .
  then have notx: "evaluate board \<noteq> Win MarkX"
    by (auto simp: evaluate_def split: option.splits if_splits)
  have over: "evaluate board \<noteq> InProgress \<longrightarrow> evaluate board = Win MarkO \<or> evaluate board = Draw"
  proof (cases "evaluate board")
    case (Win q)
    then show ?thesis using notx by (cases q) simp_all
  qed simp_all
  have move: "\<exists>i < 9. board ! i = None \<and> fst (getBestMove board Hard g) = Num (int i)"
    if "evaluate board = InProgress"
  proof -
    have "checkWinner board = None" "\<not> checkDraw board"
      using that by (auto simp: evaluate_def split: option.splits if_splits)
    then have "\<exists>j < 9. rd board j = Some None"
      using open_board_has_empty[OF len] by simp
    then obtain k where "k < 9" "rd board k = Some None" "best_full board 0 (- 1) MInf = int k"
      using best_full_valid[OF len] by blast
    then show ?thesis
      by (intro exI[of _ k]) (simp add: getBestMove_Hard rd_None_iff)
  qed
  show ?thesis using notx over move by blast
qed

theorem hard_never_loses_witness:
  "reachable MarkX game_6 \<and> evaluate game_6 = Win MarkO \<and> evaluate game_6 \<noteq> Win MarkX"
  using hard_never_loses[OF game_reachable] game_reachable game_won by simp

text \<open>
  C2. For every board of nine cells whose outcome is \<open>InProgress\<close> and which has an
  empty cell, for every difficulty and all random draws that are doubles in
  \<open>[0, 1)\<close>, \<open>getBestMove\<close> returns an index \<open>i\<close> with \<open>0 \<le> i \<le> 8\<close> of an empty
  cell. The product of the draw and the number of empty cells is rounded to a double
  before the floor is taken, and it stays below the number of empty cells
  (\<open>product_floor_less\<close>).
\<close>

theorem getBestMove_returns_empty_cell:
  assumes "length board = 9" "evaluate board = InProgress" "\<exists>i < 9. board ! i = None"
    and "\<forall>n. is_double (g n) \<and> 0 \<le> dval (g n) \<and> dval (g n) < 1"
  shows "\<exists>i. fst (getBestMove board difficulty g) = Num (int i) \<and> 0 \<le> int i \<and> int i \<le> 8 \<and>
           board ! i = None"
proof -
  have "\<exists>j < 9. rd board j = Some None"
    using assms(1,3) by (simp add: rd_None_iff)
  then have "valid_move board (fst (getBestMove board difficulty g))"
    using getBestMove_valid[OF assms(1) _ assms(4)] by simp
  then show ?thesis
    by (auto simp: valid_move_def rd_None_iff)
qed

theorem getBestMove_returns_empty_cell_witness:
  "length rounding_board = 9 \<and> evaluate rounding_board = InProgress \<and>
   fst (getBestMove rounding_board Easy rng_third) = Num 7 \<and> rounding_board ! 7 = None \<and>
   length example_board = 9 \<and> evaluate example_board = InProgress \<and>
   fst (getBestMove example_board Easy rng_half) = Num 6 \<and> example_board ! 6 = None"
proof -
  have len: "length rounding_board = 9" by (simp add: rounding_board_def)
  have prog: "evaluate rounding_board = InProgress" by code_simp
  have cell: "rounding_board ! 7 = None" by (simp add: rounding_board_def)
  have empty: "\<exists>i < 9. rounding_board ! i = None" using cell by (intro exI[of _ 7]) simp
  have len': "length example_board = 9" by (simp add: example_board_def)
  have prog': "evaluate example_board = InProgress" by code_simp
  have cell': "example_board ! 6 = None" by (simp add: example_board_def)
  have empty': "\<exists>i < 9. example_board ! i = None" using cell' by (intro exI[of _ 6]) simp
  have moves: "availableMoves example_board = [2, 5, 6, 7, 8]" by code_simp
  have gate: "dval (Double 1 1) < dval lit_0_7"
    by (simp add: dval_def lit_0_7_def)
  have prod: "product_floor (Double 1 1) 5 = 2"
    by (simp add: product_floor_def round_half_even_def Let_def bits_numeral)
  have five: "length [2::nat, 5, 6, 7, 8] = 5" by simp
  have chosen: "pick [2, 5, 6, 7, 8] (Double 1 1) = Num 6"
    unfolding pick_def Let_def five prod by simp
  have half: "fst (getBestMove example_board Easy rng_half) = Num 6"
    by (simp add: getBestMove_def Let_def rng_half_random gate moves chosen del: One_nat_def)
  show ?thesis
    using getBestMove_returns_empty_cell[OF len prog empty rng_third_draws, of Easy]
      getBestMove_returns_empty_cell[OF len' prog' empty' rng_half_draws, of Easy]
      rounding_board_easy half len prog cell len' prog' cell'
    by simp
qed

text \<open>
  C3. For every board of nine cells: when some WinLine is completed by a mark \<open>p\<close> and
  no WinLine before it in the fixed order is completed, \<open>evaluate\<close> returns
  \<open>Win p\<close>; when no WinLine is completed and every cell holds a mark, it returns
  \<open>Draw\<close>; when no WinLine is completed and some cell is empty, it returns
  \<open>InProgress\<close>.
\<close>

theorem evaluate_outcome:
  assumes "length board = 9"
  shows "(\<forall>k p. k < 8 \<and> completed board (WINNING_COMBINATIONS ! k) p \<and>
            (\<forall>j < k. \<forall>q. \<not> completed board (WINNING_COMBINATIONS ! j) q)
            \<longrightarrow> evaluate board = Win p) \<and>
         ((\<forall>k < 8. \<forall>q. \<not> completed board (WINNING_COMBINATIONS ! k) q) \<and>
            (\<forall>cell \<in> set board. cell \<noteq> None)
            \<longrightarrow> evaluate board = Draw) \<and>
         ((\<forall>k < 8. \<forall>q. \<not> completed board (WINNING_COMBINATIONS ! k) q) \<and>
            (\<exists>cell \<in> set board. cell = None)
            \<longrightarrow> evaluate board = InProgress)"
proof (intro conjI allI impI)
  fix k p
  assume "k < 8 \<and> completed board (WINNING_COMBINATIONS ! k) p \<and>
            (\<forall>j < k. \<forall>q. \<not> completed board (WINNING_COMBINATIONS ! j) q)"
  then have "checkWinner board = Some p"
    unfolding checkWinner_def
    using checkWinner_loop_first[OF combinations_in_board[OF assms], of p]
    by (auto simp: length_combinations)
  then show "evaluate board = Win p" by (simp add: evaluate_def)
next
  assume a: "(\<forall>k < 8. \<forall>q. \<not> completed board (WINNING_COMBINATIONS ! k) q) \<and>
            (\<forall>cell \<in> set board. cell \<noteq> None)"
  then have "checkWinner board = None"
    unfolding checkWinner_def
    using checkWinner_loop_none[OF combinations_in_board[OF assms]]
    by (simp add: length_combinations)
  moreover have "list_all (\<lambda>cell. cell \<noteq> None) board"
    using a by (simp add: list_all_iff)
  ultimately show "evaluate board = Draw" by (simp add: evaluate_def checkDraw_def)
next
  assume a: "(\<forall>k < 8. \<forall>q. \<not> completed board (WINNING_COMBINATIONS ! k) q) \<and>
            (\<exists>cell \<in> set board. cell = None)"
  then have "checkWinner board = None"
    unfolding checkWinner_def
    using checkWinner_loop_none[OF combinations_in_board[OF assms]]
    by (simp add: length_combinations)
  moreover have "\<not> list_all (\<lambda>cell. cell \<noteq> None) board"
    using a by (auto simp: list_all_iff)
  ultimately show "evaluate board = InProgress" by (simp add: evaluate_def checkDraw_def)
qed

theorem evaluate_outcome_witness:
  "length (example_board[2 := Some MarkX]) = 9 \<and>
   completed (example_board[2 := Some MarkX]) (WINNING_COMBINATIONS ! 0) MarkX \<and>
   evaluate (example_board[2 := Some MarkX]) = Win MarkX \<and>
   length example_board = 9 \<and> evaluate example_board = InProgress"
proof -
  have len: "length (example_board[2 := Some MarkX]) = 9" "length example_board = 9"
    by (simp_all add: example_board_def)
  have line: "completed (example_board[2 := Some MarkX]) (WINNING_COMBINATIONS ! 0) MarkX"
    by (simp add: completed_def WINNING_COMBINATIONS_def example_board_def)
  have "checkWinner example_board = None" by code_simp
  then have none: "\<forall>k < 8. \<forall>q. \<not> completed example_board (WINNING_COMBINATIONS ! k) q"
    unfolding checkWinner_def
    using checkWinner_loop_none[OF combinations_in_board[OF len(2)]]
    by (simp add: length_combinations)
  have empty: "\<exists>cell \<in> set example_board. cell = None"
    by (simp add: example_board_def)
  have first: "\<forall>j < (0::nat). \<forall>q. \<not> completed (example_board[2 := Some MarkX]) (WINNING_COMBINATIONS ! j) q"
    by simp
  have zero: "(0::nat) < 8" by simp
  have "evaluate (example_board[2 := Some MarkX]) = Win MarkX"
    using evaluate_outcome[OF len(1)] line first zero by blast
  moreover have "evaluate example_board = InProgress"
    using evaluate_outcome[OF len(2)] none empty by blast
  ultimately show ?thesis using len line by simp
qed

text \<open>
  C4. Alpha-beta pruning does not change the search result. For every board, depth and
  side to move, \<open>minimax\<close> called with \<open>alpha = -Infinity\<close> and \<open>beta = Infinity\<close>
  returns the score of the exhaustive search \<open>mm\<close>, which has no pruning; and the
  move \<open>getBestMove\<close> returns on the Hard path is the move of the same top-level loop
  run over the exhaustive search.
\<close>

theorem pruning_preserves_result:
  "fst (minimax board depth isMaximizing MInf PInf) = mm board depth isMaximizing \<and>
   fst (getBestMove board Hard g) = Num (best_full board 0 (- 1) MInf)"
  by (simp add: minimax_ab(1) ab_full_window getBestMove_Hard)

theorem pruning_preserves_result_witness:
  "fst (minimax example_board 0 True MInf PInf) = mm example_board 0 True \<and>
   fst (getBestMove example_board Hard rng_half) = Num (best_full example_board 0 (- 1) MInf)"
  by (rule pruning_preserves_result)

text \<open>
  C5, as the spec states it: on the board \<^verbatim>\<open>[X, X, _, O, O, _, _, _, _]\<close> Hard
  \<open>getBestMove\<close> returns index 2, the block. The code does not return 2 there.
\<close>

theorem example_board_not_2:
  "fst (getBestMove example_board Hard rng_half) \<noteq> Num 2"
  by (simp add: getBestMove_Hard example_board_best)

text \<open>
  C5, as amended: on the board \<^verbatim>\<open>[X, X, _, O, O, _, _, _, _]\<close> Hard
  \<open>getBestMove\<close> returns index 5, for every random source. The automated player
  has two marks on the line 3, 4, 5; cell 5 completes it and scores 10, the block at
  cell 2 scores 8, and the loop keeps the strictly greater score.
\<close>

theorem example_board_takes_win:
  "fst (getBestMove example_board Hard g) = Num 5 \<and>
   checkWinner (example_board[5 := Some MarkO]) = Some MarkO \<and>
   mm (example_board[5 := Some MarkO]) 0 False = Fin 10 \<and>
   mm (example_board[2 := Some MarkO]) 0 False = Fin 8"
proof (intro conjI)
  show "fst (getBestMove example_board Hard g) = Num 5"
    by (simp add: getBestMove_Hard example_board_best)
  show "checkWinner (example_board[5 := Some MarkO]) = Some MarkO"
    by code_simp
  show "mm (example_board[5 := Some MarkO]) 0 False = Fin 10"
    by code_simp
  show "mm (example_board[2 := Some MarkO]) 0 False = Fin 8"
    by code_simp
qed

theorem example_board_takes_win_witness:
  "fst (getBestMove example_board Hard rng_half) = Num 5 \<and>
   checkWinner (example_board[5 := Some MarkO]) = Some MarkO"
  using example_board_takes_win[of rng_half] by simp

text \<open>
  C6, as the spec states it: on a board with no empty cell \<open>getBestMove\<close> fails with
  an error instead of returning an invalid index. The source has no \<^verbatim>\<open>throw\<close> and
  no check of the board, and the result of the model has no error for that reason: on
  the full board \<open>drawn_board\<close> the Hard call returns the number -1, which is not
  a valid move.
\<close>

theorem full_board_returns_silently:
  "None \<notin> set drawn_board \<and>
   fst (getBestMove drawn_board Hard rng_half) = Num (- 1) \<and>
   \<not> valid_move drawn_board (Num (- 1))"
  using full_board_result[OF drawn_board_full, of Hard rng_half]
    full_board_invalid[OF drawn_board_full] drawn_board_full full_iff
  by blast

text \<open>
  C6, as amended: on a board with no empty cell \<open>getBestMove\<close> raises nothing. It
  returns -1 when it runs the search (always on Hard) and \<^verbatim>\<open>undefined\<close> when it
  takes the random branch (Easy and Medium only), and in no case a valid move.
\<close>

theorem full_board_no_error:
  assumes "None \<notin> set board"
  shows "(fst (getBestMove board difficulty g) = Num (- 1) \<or>
          (difficulty \<noteq> Hard \<and> fst (getBestMove board difficulty g) = Undefined)) \<and>
         \<not> valid_move board (fst (getBestMove board difficulty g))"
proof -
  have full: "list_all (\<lambda>cell. cell \<noteq> None) board"
    using assms full_iff by blast
  show ?thesis
    using full_board_result[OF full] full_board_invalid[OF full] by simp
qed

theorem full_board_no_error_witness:
  "None \<notin> set drawn_board \<and>
   fst (getBestMove drawn_board Easy rng_half) = Undefined \<and>
   fst (getBestMove drawn_board Hard rng_half) = Num (- 1) \<and>
   \<not> valid_move drawn_board (fst (getBestMove drawn_board Easy rng_half))"
proof -
  have full: "None \<notin> set drawn_board"
    using drawn_board_full full_iff by blast
  have gate: "dval (Double 1 1) < dval lit_0_7"
    by (simp add: dval_def lit_0_7_def)
  have "fst (getBestMove drawn_board Easy rng_half) =
          pick (availableMoves drawn_board) (Double 1 1)"
    by (simp add: getBestMove_def Let_def rng_half_random gate del: One_nat_def)
  then have easy: "fst (getBestMove drawn_board Easy rng_half) \<noteq> Num (- 1)"
    by (simp add: availableMoves_full[OF drawn_board_full] pick_empty)
  show ?thesis
    using full_board_no_error[OF full, of Easy rng_half]
      full_board_no_error[OF full, of Hard rng_half] full easy
    by metis
qed

text \<open>
  C7. For every board of nine cells with outcome \<open>InProgress\<close> and exactly one empty
  cell, at index \<open>i\<close>, \<open>getBestMove\<close> returns \<open>i\<close> for every difficulty and all random
  draws that are doubles in \<open>[0, 1)\<close>.
\<close>

theorem getBestMove_single_empty_cell:
  assumes "length board = 9" "evaluate board = InProgress"
    and "i < 9" "board ! i = None" "\<forall>j < 9. j \<noteq> i \<longrightarrow> board ! j \<noteq> None"
    and "\<forall>n. is_double (g n) \<and> 0 \<le> dval (g n) \<and> dval (g n) < 1"
  shows "fst (getBestMove board difficulty g) = Num (int i)"
proof -
  have "\<exists>j < 9. rd board j = Some None"
    using assms(1,3,4) by (auto simp: rd_None_iff)
  then have "valid_move board (fst (getBestMove board difficulty g))"
    using getBestMove_valid[OF assms(1) _ assms(6)] by simp
  then obtain j where j: "j < 9" "fst (getBestMove board difficulty g) = Num (int j)"
    "board ! j = None"
    by (auto simp: valid_move_def rd_None_iff)
  then have "j = i" using assms(5) by blast
  then show ?thesis using j(2) by simp
qed

theorem getBestMove_single_empty_cell_witness:
  "length last_cell_board = 9 \<and> evaluate last_cell_board = InProgress \<and>
   last_cell_board ! 8 = None \<and>
   fst (getBestMove last_cell_board Medium rng_half) = Num 8 \<and>
   fst (getBestMove last_cell_board Hard rng_half) = Num 8"
proof -
  have len: "length last_cell_board = 9" by (simp add: last_cell_board_def drawn_board_def)
  have prog: "evaluate last_cell_board = InProgress" by code_simp
  have cell: "last_cell_board ! 8 = None" by (simp add: last_cell_board_def drawn_board_def)
  have others: "\<forall>j < 9. j \<noteq> 8 \<longrightarrow> last_cell_board ! j \<noteq> None"
  proof (intro allI impI)
    fix j :: nat assume "j < 9" "j \<noteq> 8"
    then have "j < 8" by simp
    then have "j \<in> {0, 1, 2, 3, 4, 5, 6, 7}" by auto
    then show "last_cell_board ! j \<noteq> None"
      by (auto simp: last_cell_board_def drawn_board_def)
  qed
  have eight: "(8::nat) < 9" by simp
  show ?thesis
    using getBestMove_single_empty_cell[OF len prog eight cell others rng_half_draws, of Medium]
      getBestMove_single_empty_cell[OF len prog eight cell others rng_half_draws, of Hard]
      len prog cell
    by simp
qed

text \<open>
  C8. Neither \<open>minimax\<close> nor \<open>getBestMove\<close> leaves a change in the board: the board
  a call returns is the board it was given, for every window (so also where the loop
  stops at a \<^verbatim>\<open>break\<close>), every difficulty and every random source.
\<close>

theorem board_restored:
  "snd (minimax board depth isMaximizing alpha beta) = board \<and>
   fst (snd (getBestMove board difficulty g)) = board"
  by (simp add: minimax_ab(1) getBestMove_board)

theorem board_restored_witness:
  "snd (minimax example_board 0 True (Fin 0) (Fin 1)) = example_board \<and>
   fst (snd (getBestMove example_board Medium rng_half)) = example_board"
  by (rule board_restored)

text \<open>
  C9. \<open>evaluate\<close> and Hard \<open>getBestMove\<close> are deterministic. \<open>evaluate\<close> is a function
  of the cells of the board. A Hard call returns the same index for every random
  source, hands the random source back as it was (no draw), and a second call on the
  board and the source the first call leaves returns what the first call returned.
\<close>

theorem hard_deterministic:
  "(board = board' \<longrightarrow>
      evaluate board = evaluate board' \<and>
      fst (getBestMove board Hard g) = fst (getBestMove board' Hard g')) \<and>
   snd (snd (getBestMove board Hard g)) = g \<and>
   (case getBestMove board Hard g of
      (move, board1, g1) \<Rightarrow> getBestMove board1 Hard g1 = (move, board1, g1)) \<and>
   evaluate (fst (snd (getBestMove board Hard g))) = evaluate board"
  by (simp add: getBestMove_Hard)

theorem hard_deterministic_witness:
  "evaluate example_board = InProgress \<and>
   fst (getBestMove example_board Hard rng_half) = fst (getBestMove example_board Hard rng_zero) \<and>
   snd (snd (getBestMove example_board Hard rng_half)) = rng_half"
proof -
  have "evaluate example_board = InProgress" by code_simp
  then show ?thesis
    using hard_deterministic[of example_board example_board rng_half rng_zero] by simp
qed

text \<open>
  C10. On a board with no empty cell, Hard \<open>getBestMove\<close> returns -1 and raises
  nothing: the loop finds no empty cell and \<^verbatim>\<open>bestMove\<close> keeps its initial value.
  -1 is not the index of a cell.
\<close>

theorem hard_full_board_minus_one:
  assumes "None \<notin> set board"
  shows "fst (getBestMove board Hard g) = Num (- 1) \<and>
         (\<forall>i::nat. fst (getBestMove board Hard g) \<noteq> Num (int i))"
proof -
  have full: "list_all (\<lambda>cell. cell \<noteq> None) board"
    using assms full_iff by blast
  show ?thesis
    using full_board_result[OF full, of Hard g] by auto
qed

theorem hard_full_board_minus_one_witness:
  "None \<notin> set drawn_board \<and>
   fst (getBestMove drawn_board Hard rng_half) = Num (- 1)"
proof -
  have full: "None \<notin> set drawn_board"
    using drawn_board_full full_iff by blast
  show ?thesis
    using hard_full_board_minus_one[OF full, of rng_half] full by blast
qed

end
